theory Spec2Isabelle
  imports Complex_Main
begin

section \<open>Character vectors of the host environment\<close>

text \<open>
  The first part of \<^verbatim>\<open>common.cpp\<close> builds R character vectors. An R value is
  modelled by the two shapes the functions can return: the \<^verbatim>\<open>NULL\<close> object
  and a character vector (\<^verbatim>\<open>STRSXP\<close>) whose elements are either the missing string
  or a string of bytes. \<^verbatim>\<open>R_len_t\<close> is a C \<^verbatim>\<open>int\<close>; no arithmetic is done on
  \<^verbatim>\<open>howmany\<close>, so it is an \<open>int\<close> here.
\<close>

datatype CHARSXP = NA_STRING | mkChar string

datatype SEXP = R_NilValue | STRSXP "CHARSXP list"

text \<open>\<^verbatim>\<open>allocVector(STRSXP, n)\<close>: a fresh vector of \<open>n\<close> blank strings.\<close>

definition allocVector_STRSXP :: "nat \<Rightarrow> CHARSXP list" where
  "allocVector_STRSXP n = replicate n (mkChar [])"

text \<open>\<^verbatim>\<open>SET_STRING_ELT(ret, i, v)\<close>.\<close>

definition SET_STRING_ELT :: "CHARSXP list \<Rightarrow> nat \<Rightarrow> CHARSXP \<Rightarrow> CHARSXP list" where
  "SET_STRING_ELT ret i v = ret[i := v]"

definition stri__mkStringNA :: "int \<Rightarrow> SEXP" where
  "stri__mkStringNA howmany =
     (if howmany \<le> 0 then R_NilValue
      else STRSXP (fold (\<lambda>i ret. SET_STRING_ELT ret i NA_STRING)
                     [0..<nat howmany] (allocVector_STRSXP (nat howmany))))"

definition stri__mkStringEmpty :: "int \<Rightarrow> SEXP" where
  "stri__mkStringEmpty howmany =
     (if howmany \<le> 0 then R_NilValue
      else STRSXP (fold (\<lambda>i ret. SET_STRING_ELT ret i (mkChar []))
                     [0..<nat howmany] (allocVector_STRSXP (nat howmany))))"

section \<open>The wrap planners\<close>

text \<open>
  Word indices and loop counters are natural numbers; widths, code-point counts and the
  number of boundaries are C \<^verbatim>\<open>int\<close>s and modelled as \<open>int\<close>. The counts the driver
  passes sum to at most the byte length of one string, so no sum below leaves the range
  of a 32-bit \<^verbatim>\<open>int\<close>. The products of the dynamic planner can leave it: they are
  checked against \<open>INT_MAX\<close>. The break list \<open>wrap\<close> is the \<^verbatim>\<open>std::deque\<close> the planners
  push to.
\<close>

text \<open>
  What a call can raise: \<^verbatim>\<open>Rf_error(MSG__EXPECTED_POSITIVE, "width")\<close>,
  \<^verbatim>\<open>StriException(MSG__NEWLINE_FOUND)\<close>, \<^verbatim>\<open>StriException(status)\<close> for a failing
  ICU status, and R's own error when a string of negative length is requested. The last
  outcome, \<open>int_overflow\<close>, stands for a signed 32-bit product beyond \<open>INT_MAX\<close>: the
  behaviour of the C++ program is undefined from there on, and the model stops.
\<close>

datatype error =
  MSG__EXPECTED_POSITIVE
  | MSG__NEWLINE_FOUND
  | StriException_status int
  | R_negative_length
  | int_overflow

text \<open>The largest value of a C \<^verbatim>\<open>int\<close> (and of \<^verbatim>\<open>R_len_t\<close>), \<open>2 ^ 31 - 1\<close>.\<close>

definition INT_MAX :: int where
  "INT_MAX = 2147483647"

subsection \<open>Greedy\<close>

text \<open>The body of the \<^verbatim>\<open>for\<close> loop; the state is \<open>(cur_len, wrap)\<close>.\<close>

definition greedy_body ::
  "int \<Rightarrow> int list \<Rightarrow> int list \<Rightarrow> nat \<Rightarrow> int \<times> nat list \<Rightarrow> int \<times> nat list" where
  "greedy_body width_val counts_orig counts_trim j st =
     (case st of (cur_len, wrap) \<Rightarrow>
        if cur_len + counts_trim ! j > width_val
        then (counts_orig ! j, wrap @ [j - 1])
        else (cur_len + counts_orig ! j, wrap))"

text \<open>The loop state after the iterations \<open>j = 1, ..., m - 1\<close>.\<close>

definition greedy_loop ::
  "nat list \<Rightarrow> int \<Rightarrow> int list \<Rightarrow> int list \<Rightarrow> nat \<Rightarrow> int \<times> nat list" where
  "greedy_loop wrap width_val counts_orig counts_trim m =
     fold (greedy_body width_val counts_orig counts_trim) [1..<m] (counts_orig ! 0, wrap)"

definition stri__wrap_greedy ::
  "nat list \<Rightarrow> int \<Rightarrow> int \<Rightarrow> int list \<Rightarrow> int list \<Rightarrow> nat list" where
  "stri__wrap_greedy wrap noccurences width_val counts_orig counts_trim =
     snd (greedy_loop wrap width_val counts_orig counts_trim (nat (noccurences - 1)))"

subsection \<open>Dynamic\<close>

text \<open>
  \<^verbatim>\<open>double\<close> values are modelled as reals: rounding, infinities and NaN are left
  out. The C library's \<^verbatim>\<open>pow\<close> is a parameter \<open>pow\<close> of the model; the theorems assume
  of it only that a non-negative base gives a non-negative result. The matrices
  \<^verbatim>\<open>cost\<close> and \<^verbatim>\<open>where\<close> are flat vectors of \<open>n * n\<close> cells addressed through the
  macro \<^verbatim>\<open>IDX\<close>, as in the source. Reading a vector out of range is undefined in C++
  and unspecified here; the theorems below show that the planners stay within range
  (the search for the first feasible break stops before the diagonal).

  The source computes the size \<^verbatim>\<open>n*n\<close> and every index \<^verbatim>\<open>(i)*n+(j)\<close> in 32-bit
  \<^verbatim>\<open>int\<close>. The size is the first of these products and the largest: the planner
  \<open>stri__wrap_dynamic\<close> below stops with \<open>int_overflow\<close> when \<open>n * n\<close> is beyond
  \<open>INT_MAX\<close>, that is from 46341 words on. Otherwise every index of a cell, being
  below \<open>n * n\<close>, is an \<^verbatim>\<open>int\<close> (\<open>IDX_int\<close> below), and \<open>IDX\<close> is the value the macro
  computes. The loops \<open>calc_costs\<close> and \<open>plan_loop\<close> are the planner's loops after that
  check.
\<close>

definition IDX :: "nat \<Rightarrow> nat \<Rightarrow> nat \<Rightarrow> nat" where
  "IDX n i j = i * n + j"

text \<open>The body of the inner cost loop for row \<open>i\<close>; the state is \<open>(sum, cost)\<close>.\<close>

definition cost_body ::
  "(real \<Rightarrow> real \<Rightarrow> real) \<Rightarrow> nat \<Rightarrow> int \<Rightarrow> real \<Rightarrow> int list \<Rightarrow> int list \<Rightarrow>
     nat \<Rightarrow> nat \<Rightarrow> int \<times> real list \<Rightarrow> int \<times> real list" where
  "cost_body pow n width_val exponent_val counts_orig counts_trim i j st =
     (case st of (sm, cost) \<Rightarrow>
        if j > i \<and> cost ! IDX n i (j - 1) < 0 then (sm, cost[IDX n i j := - 1])
        else
          let sm1 = (if j > i then sm - counts_trim ! (j - 1) + counts_orig ! (j - 1) else sm);
              sm2 = sm1 + counts_trim ! j;
              ct = width_val - sm2
          in if j = i
             then (sm2, cost[IDX n i j := (if ct < 0 then 0 else pow (real_of_int ct) exponent_val)])
             else (sm2, cost[IDX n i j := (if ct < 0 then - 1 else pow (real_of_int ct) exponent_val)]))"

definition cost_row ::
  "(real \<Rightarrow> real \<Rightarrow> real) \<Rightarrow> nat \<Rightarrow> int \<Rightarrow> real \<Rightarrow> int list \<Rightarrow> int list \<Rightarrow>
     nat \<Rightarrow> real list \<Rightarrow> real list" where
  "cost_row pow n width_val exponent_val counts_orig counts_trim i cost =
     snd (fold (cost_body pow n width_val exponent_val counts_orig counts_trim i) [i..<n] (0, cost))"

definition calc_costs ::
  "(real \<Rightarrow> real \<Rightarrow> real) \<Rightarrow> nat \<Rightarrow> int \<Rightarrow> real \<Rightarrow> int list \<Rightarrow> int list \<Rightarrow> real list" where
  "calc_costs pow n width_val exponent_val counts_orig counts_trim =
     fold (cost_row pow n width_val exponent_val counts_orig counts_trim) [0..<n]
       (replicate (n * n) 0)"

text \<open>
  \<^verbatim>\<open>while (i <= j) if (cost[IDX(i+1,j)] >= 0.0) break; else ++i;\<close>
\<close>

function first_fit :: "nat \<Rightarrow> real list \<Rightarrow> nat \<Rightarrow> nat \<Rightarrow> nat" where
  "first_fit n cost j i =
     (if i \<le> j then (if cost ! IDX n (i + 1) j \<ge> 0 then i else first_fit n cost j (i + 1))
      else i)"
  by pat_completeness auto
termination
  by (relation "measure (\<lambda>(n, cost, j, i). Suc j - i)") auto

declare first_fit.simps [simp del]

text \<open>The body of the search for a better break; the state is \<open>(best_i, i)\<close>.\<close>

definition best_body ::
  "nat \<Rightarrow> real list \<Rightarrow> real list \<Rightarrow> nat \<Rightarrow> nat \<Rightarrow> real \<times> nat \<Rightarrow> real \<times> nat" where
  "best_body n cost f j k st =
     (case st of (best_i, i) \<Rightarrow>
        if cost ! IDX n (k + 1) j < 0 then (best_i, i)
        else let best_cur = f ! k + cost ! IDX n (k + 1) j
             in if best_cur < best_i then (best_cur, k) else (best_i, i))"

text \<open>The break chosen for column \<open>j\<close> and its recorded cost, \<open>(best_i, i)\<close>.\<close>

definition best_break :: "nat \<Rightarrow> real list \<Rightarrow> real list \<Rightarrow> nat \<Rightarrow> real \<times> nat" where
  "best_break n cost f j =
     (let i = first_fit n cost j 0;
          best_i = f ! 0 + cost ! IDX n (i + 1) j
      in fold (best_body n cost f j) [i + 1..<j] (best_i, i))"

text \<open>The body of the main loop over \<open>j\<close>; the state is \<open>(f, where)\<close>.\<close>

definition plan_body ::
  "nat \<Rightarrow> real list \<Rightarrow> nat \<Rightarrow> real list \<times> bool list \<Rightarrow> real list \<times> bool list" where
  "plan_body n cost j st =
     (case st of (f, where_v) \<Rightarrow>
        if cost ! IDX n 0 j \<ge> 0 then (f[j := cost ! IDX n 0 j], where_v)
        else
          (case best_break n cost f j of (best_i, i) \<Rightarrow>
             let where1 = fold (\<lambda>k w. w[IDX n k j := w ! IDX n k i]) [0..<i] where_v;
                 where2 = where1[IDX n i j := True]
             in (f[j := best_i], where2)))"

definition plan_loop :: "nat \<Rightarrow> real list \<Rightarrow> nat \<Rightarrow> real list \<times> bool list" where
  "plan_loop n cost m =
     fold (plan_body n cost) [0..<m] (replicate n 0, replicate (n * n) False)"

text \<open>
  The planner. \<^verbatim>\<open>vector<double> cost(n*n)\<close> is its first statement after \<open>n\<close> is set:
  the product is checked there. The last loop pushes the breaks of the last column of
  \<^verbatim>\<open>where\<close>.
\<close>

definition stri__wrap_dynamic ::
  "(real \<Rightarrow> real \<Rightarrow> real) \<Rightarrow> nat list \<Rightarrow> int \<Rightarrow> int \<Rightarrow> real \<Rightarrow> int list \<Rightarrow> int list \<Rightarrow>
     error + nat list" where
  "stri__wrap_dynamic pow wrap noccurences width_val exponent_val counts_orig counts_trim =
     (let n = nat (noccurences - 1) in
      if INT_MAX < int n * int n then Inl int_overflow
      else
        let cost = calc_costs pow n width_val exponent_val counts_orig counts_trim;
            where_v = snd (plan_loop n cost n)
        in Inr (fold (\<lambda>k w. if where_v ! IDX n k (n - 1) then w @ [k] else w) [0..<n] wrap))"

section \<open>The wrap driver\<close>

text \<open>
  The driver \<^verbatim>\<open>stri_wrap\<close> works with collaborators that are not part of the
  repository: ICU's line-break iterator, its UTF-8 decoding macro, its White_Space set
  and the C library's \<^verbatim>\<open>pow\<close>. They are the fields of one record, and every
  theorem holds for all of them.
  \<^item> \<open>createLineInstance\<close>: the failing status of
    \<^verbatim>\<open>BreakIterator::createLineInstance\<close>, if it fails;
  \<^item> \<open>segment\<close>: for one string, the failing status of \<^verbatim>\<open>utext_openUTF8\<close> or
    \<^verbatim>\<open>setText\<close>, or else the offsets \<^verbatim>\<open>first()\<close>, \<^verbatim>\<open>next()\<close>, ... up
    to \<^verbatim>\<open>DONE\<close>;
  \<^item> \<open>U8_NEXT\<close>: for a string and an offset \<open>j\<close>, the number of bytes the macro
    consumes after the first one and the code point it yields (negative for an invalid
    sequence); the macro always consumes the byte at \<open>j\<close>;
  \<^item> \<open>uset_whitespaces\<close>: membership in the set of the property White_Space;
  \<^item> \<open>libm_pow\<close>: the power function \<^verbatim>\<open>pow\<close>.

  The arguments are taken as already prepared: the strings as byte strings or the
  missing value, the width as an integer, the exponent as a real. Building the two
  sets of code points from their constant patterns is taken to succeed.
\<close>

record icu =
  createLineInstance :: "int option"
  segment :: "string \<Rightarrow> int + nat list"
  U8_NEXT :: "string \<Rightarrow> nat \<Rightarrow> nat \<times> int"
  uset_whitespaces :: "int \<Rightarrow> bool"
  libm_pow :: "real \<Rightarrow> real \<Rightarrow> real"

text \<open>The frozen set of the code points U+000A to U+000D, U+0085, U+2028 and U+2029.\<close>

definition uset_linebreaks :: "int \<Rightarrow> bool" where
  "uset_linebreaks c = ((0x0A \<le> c \<and> c \<le> 0x0D) \<or> c = 0x85 \<or> c = 0x2028 \<or> c = 0x2029)"

text \<open>
  Modelled from the spec: \<^verbatim>\<open>str_cont.toR(i)\<close> is defined outside the sources given;
  the spec says it gives a single output line equal to the original string.
\<close>

definition toR :: "string \<Rightarrow> CHARSXP list" where
  "toR s = [mkChar s]"

text \<open>
  Modelled from the spec: \<^verbatim>\<open>stri__vector_NA_strings(n)\<close> is defined outside the
  sources given; the spec says it gives a missing-value result.
\<close>

definition stri__vector_NA_strings :: "nat \<Rightarrow> CHARSXP list" where
  "stri__vector_NA_strings n = replicate n NA_STRING"

text \<open>
  \<^verbatim>\<open>Rf_mkCharLenCE(str_cur_s + start, len, CE_UTF8)\<close> of R's API: the \<open>len\<close> bytes of
  the string from offset \<open>start\<close>. R refuses a negative length.
\<close>

definition Rf_mkCharLenCE :: "string \<Rightarrow> nat \<Rightarrow> int \<Rightarrow> error + CHARSXP" where
  "Rf_mkCharLenCE s start len =
     (if len < 0 then Inl R_negative_length else Inr (mkChar (take (nat len) (drop start s))))"

subsection \<open>Measuring the words\<close>

text \<open>
  The local variables of the measuring loop, and the slot \<^verbatim>\<open>ret[i]\<close> of the result
  list, which the loop writes when it meets an invalid sequence.
\<close>

record scan =
  s_j :: nat
  s_cur_block :: nat
  s_cur_count_orig :: int
  s_cur_count_trim :: int
  s_cur_end_pos_trim :: nat
  s_counts_orig :: "int list"
  s_counts_trim :: "int list"
  s_end_pos_trim :: "nat list"
  s_ret_i :: "CHARSXP list option"

text \<open>
  One iteration of \<^verbatim>\<open>while (j < str_cur_n)\<close>. The \<^verbatim>\<open>continue\<close> after an invalid
  sequence continues this loop: the slot is written and the scan goes on with the next
  byte. A forbidden code point throws. On a string segmented as the segmenter's
  contract says, \<open>cur_block + 1\<close> stays an index of \<open>pos\<close> and \<open>cur_block\<close> an index of
  the three vectors (\<open>scan_inv\<close> below).
\<close>

definition measure_body :: "icu \<Rightarrow> string \<Rightarrow> nat list \<Rightarrow> scan \<Rightarrow> error + scan" where
  "measure_body env s pos st =
     (case U8_NEXT env s (s_j st) of (trail, c) \<Rightarrow>
        let j = Suc (s_j st) + trail in
        if c < 0 then Inr (st\<lparr>s_j := j, s_ret_i := Some (toR s)\<rparr>)
        else if uset_linebreaks c then Inl MSG__NEWLINE_FOUND
        else
          let orig = s_cur_count_orig st + 1;
              trim = (if uset_whitespaces env c then s_cur_count_trim st + 1 else 0);
              endp = (if uset_whitespaces env c then s_cur_end_pos_trim st else j)
          in if j \<ge> length s \<or> pos ! (s_cur_block st + 1) \<le> j
             then Inr (st\<lparr>s_j := j,
                         s_cur_block := s_cur_block st + 1,
                         s_cur_count_orig := 0,
                         s_cur_count_trim := 0,
                         s_cur_end_pos_trim := j,
                         s_counts_orig := (s_counts_orig st)[s_cur_block st := orig],
                         s_counts_trim := (s_counts_trim st)[s_cur_block st := orig - trim],
                         s_end_pos_trim := (s_end_pos_trim st)[s_cur_block st := endp]\<rparr>)
             else Inr (st\<lparr>s_j := j,
                         s_cur_count_orig := orig,
                         s_cur_count_trim := trim,
                         s_cur_end_pos_trim := endp\<rparr>))"

function measure_loop :: "icu \<Rightarrow> string \<Rightarrow> nat list \<Rightarrow> scan \<Rightarrow> error + scan" where
  "measure_loop env s pos st =
     (if s_j st < length s
      then (case measure_body env s pos st of
              Inl e \<Rightarrow> Inl e
            | Inr st' \<Rightarrow> measure_loop env s pos st')
      else Inr st)"
  by pat_completeness auto
termination
  by (relation "measure (\<lambda>(env, s, pos, st). length s - s_j st)")
     (auto simp: measure_body_def Let_def split: prod.splits if_splits)

declare measure_loop.simps [simp del]

text \<open>The variables as declared before the loop, for \<open>noccurences\<close> boundaries.\<close>

definition scan_init :: "int \<Rightarrow> scan" where
  "scan_init noccurences =
     \<lparr>s_j = 0, s_cur_block = 0, s_cur_count_orig = 0, s_cur_count_trim = 0,
      s_cur_end_pos_trim = 0,
      s_counts_orig = replicate (nat (noccurences - 1)) 0,
      s_counts_trim = replicate (nat (noccurences - 1)) 0,
      s_end_pos_trim = replicate (nat (noccurences - 1)) 0,
      s_ret_i = None\<rparr>"

subsection \<open>Building the lines\<close>

text \<open>
  The loop over the break list, after the driver has appended \<open>noccurences - 2\<close>; the
  state is \<open>last_pos\<close>, the line number \<open>j\<close> and the vector \<open>ans\<close>.
\<close>

fun build_lines ::
  "string \<Rightarrow> nat list \<Rightarrow> nat list \<Rightarrow> nat list \<Rightarrow> nat \<Rightarrow> nat \<Rightarrow> CHARSXP list \<Rightarrow> error + CHARSXP list" where
  "build_lines s pos end_pos_trim [] last_pos j ans = Inr ans"
| "build_lines s pos end_pos_trim (w # ws) last_pos j ans =
     (let cur_pos = end_pos_trim ! w
      in case Rf_mkCharLenCE s last_pos (int cur_pos - int last_pos) of
           Inl e \<Rightarrow> Inl e
         | Inr line \<Rightarrow>
             build_lines s pos end_pos_trim ws (pos ! (w + 1)) (j + 1) (SET_STRING_ELT ans j line))"

text \<open>
  The code points \<^verbatim>\<open>U8_NEXT\<close> yields when the string is read from offset \<open>j\<close> to
  its end, in order: the values the variable \<open>c\<close> takes in a scan nothing interrupts.
\<close>

function scanned :: "icu \<Rightarrow> string \<Rightarrow> nat \<Rightarrow> int list" where
  "scanned env s j =
     (if j < length s
      then (case U8_NEXT env s j of (trail, c) \<Rightarrow> c # scanned env s (Suc j + trail))
      else [])"
  by pat_completeness auto
termination
  by (relation "measure (\<lambda>(env, s, j). length s - j)") auto

declare scanned.simps [simp del]

text \<open>\<^verbatim>\<open>wrap.push_back(noccurences-2)\<close>: the driver ends the last line after the last word.\<close>

definition push_terminal :: "nat list \<Rightarrow> int \<Rightarrow> nat list" where
  "push_terminal wrap noccurences = wrap @ [nat (noccurences - 2)]"

subsection \<open>One string, and the batch\<close>

text \<open>
  The body of the loop over the strings for a string that is not missing. The value is
  what \<^verbatim>\<open>ret[i]\<close> holds at the end of the iteration, or the exception thrown. After
  the measuring loop the code always plans, builds and stores \<open>ans\<close> in the slot; the
  fallback value the measuring loop may have stored there (\<open>s_ret_i\<close>) is overwritten.
\<close>

definition wrap_string :: "icu \<Rightarrow> int \<Rightarrow> real \<Rightarrow> string \<Rightarrow> error + CHARSXP list" where
  "wrap_string env width_val exponent_val s =
     (case segment env s of
        Inl status \<Rightarrow> Inl (StriException_status status)
      | Inr occurences_list \<Rightarrow>
          let noccurences = int (length occurences_list) in
          if noccurences \<le> 1 then Inr (toR s)
          else
            let pos = occurences_list in
            case measure_loop env s pos (scan_init noccurences) of
              Inl e \<Rightarrow> Inl e
            | Inr st \<Rightarrow>
                (case (if exponent_val \<le> 0
                       then Inr (stri__wrap_greedy [] noccurences width_val
                                   (s_counts_orig st) (s_counts_trim st))
                       else stri__wrap_dynamic (libm_pow env) [] noccurences width_val exponent_val
                              (s_counts_orig st) (s_counts_trim st)) of
                   Inl e \<Rightarrow> Inl e
                 | Inr wrap \<Rightarrow>
                     let nlines = length wrap + 1;
                         wrap' = push_terminal wrap noccurences
                     in build_lines s pos (s_end_pos_trim st) wrap' 0 0
                          (allocVector_STRSXP nlines)))"

text \<open>The loop over the strings; a missing string is \<open>None\<close>. An exception ends the call.\<close>

fun wrap_elements :: "icu \<Rightarrow> int \<Rightarrow> real \<Rightarrow> string option list \<Rightarrow> error + CHARSXP list list" where
  "wrap_elements env width_val exponent_val [] = Inr []"
| "wrap_elements env width_val exponent_val (x # xs) =
     (case (case x of None \<Rightarrow> Inr (stri__vector_NA_strings 1)
                    | Some s \<Rightarrow> wrap_string env width_val exponent_val s) of
        Inl e \<Rightarrow> Inl e
      | Inr r \<Rightarrow>
          (case wrap_elements env width_val exponent_val xs of
             Inl e \<Rightarrow> Inl e
           | Inr rs \<Rightarrow> Inr (r # rs)))"

definition stri_wrap :: "icu \<Rightarrow> string option list \<Rightarrow> int \<Rightarrow> real \<Rightarrow> error + CHARSXP list list" where
  "stri_wrap env str width_val exponent_val =
     (if width_val \<le> 0 then Inl MSG__EXPECTED_POSITIVE
      else case createLineInstance env of
             Some status \<Rightarrow> Inl (StriException_status status)
           | None \<Rightarrow> wrap_elements env width_val exponent_val str)"

subsection \<open>Stand-ins for the collaborators\<close>

text \<open>
  Concrete collaborators for evaluating the model on plain text: a segmenter that allows
  a break after every blank that is followed by another character, a decoder that
  yields an ASCII byte as its code point and takes any other single byte as an invalid
  sequence (as \<^verbatim>\<open>U8_NEXT\<close> does for a byte that cannot start a sequence, such as
  \<^verbatim>\<open>0xFF\<close>), the blank as the only white space, and integer powers.
\<close>

fun breaks_from :: "string \<Rightarrow> nat \<Rightarrow> nat list" where
  "breaks_from [] k = []"
| "breaks_from [c] k = [Suc k]"
| "breaks_from (c # d # cs) k =
     (if c = CHR '' '' \<and> d \<noteq> CHR '' '' then Suc k # breaks_from (d # cs) (Suc k)
      else breaks_from (d # cs) (Suc k))"

definition blank_segment :: "string \<Rightarrow> int + nat list" where
  "blank_segment s = Inr (0 # breaks_from s 0)"

definition single_byte_next :: "string \<Rightarrow> nat \<Rightarrow> nat \<times> int" where
  "single_byte_next s j =
     (0, if (of_char (s ! j) :: nat) < 128 then int (of_char (s ! j)) else - 1)"

definition test_icu :: icu where
  "test_icu =
     \<lparr>createLineInstance = None,
      segment = blank_segment,
      U8_NEXT = single_byte_next,
      uset_whitespaces = (\<lambda>c. c = 32),
      libm_pow = (\<lambda>x y. x ^ nat \<lfloor>y\<rfloor>)\<rparr>"


section \<open>Lines and their widths\<close>

text \<open>
  Notions the statements below use. A break list holds the indices of the words after
  which a line ends. \<open>line_start wrap x\<close> is the first word of the line that holds
  word \<open>x\<close>; \<open>line_groups\<close> pairs the first and the last word of every line, in the
  order in which the driver's building loop walks the break list;
  \<open>line_width a b\<close> counts the code points of a line of the words \<open>a, ..., b\<close>:
  every word but the last with its original width, the last one trimmed.
  \<open>greedy_breaks_before wrap j\<close> is the test of the greedy loop at word \<open>j\<close>, read off
  the break list: the line that holds word \<open>j - 1\<close>, extended by the trimmed word \<open>j\<close>,
  is wider than the width.
\<close>

definition line_start :: "nat list \<Rightarrow> nat \<Rightarrow> nat" where
  "line_start wrap x = (case rev (filter (\<lambda>b. b < x) wrap) of [] \<Rightarrow> 0 | b # _ \<Rightarrow> Suc b)"

definition line_width :: "int list \<Rightarrow> int list \<Rightarrow> nat \<Rightarrow> nat \<Rightarrow> int" where
  "line_width counts_orig counts_trim a b =
     sum_list (map (\<lambda>k. counts_orig ! k) [a..<b]) + counts_trim ! b"

definition greedy_breaks_before :: "int \<Rightarrow> int list \<Rightarrow> int list \<Rightarrow> nat list \<Rightarrow> nat \<Rightarrow> bool" where
  "greedy_breaks_before width_val counts_orig counts_trim wrap j =
     (width_val < line_width counts_orig counts_trim (line_start wrap (j - 1)) j)"

fun line_groups :: "nat list \<Rightarrow> nat \<Rightarrow> (nat \<times> nat) list" where
  "line_groups [] a = []"
| "line_groups (w # ws) a = (a, w) # line_groups ws (Suc w)"

text \<open>
  \<open>fits_through i j\<close>: each of the lines \<open>i..j'\<close> with \<open>i < j' \<le> j\<close> is within the
  width. \<open>cell_cost i j\<close> is the closed form of the cell \<open>(i, j)\<close> of the cost matrix
  that the theorems below establish; \<open>row_state\<close> is the state of the inner cost loop
  of row \<open>i\<close> before the iteration \<open>j = m\<close>.
\<close>

definition fits_through :: "int \<Rightarrow> int list \<Rightarrow> int list \<Rightarrow> nat \<Rightarrow> nat \<Rightarrow> bool" where
  "fits_through width_val counts_orig counts_trim i j =
     list_all (\<lambda>j'. line_width counts_orig counts_trim i j' \<le> width_val) [Suc i..<Suc j]"

definition cell_cost ::
  "(real \<Rightarrow> real \<Rightarrow> real) \<Rightarrow> int \<Rightarrow> real \<Rightarrow> int list \<Rightarrow> int list \<Rightarrow> nat \<Rightarrow> nat \<Rightarrow> real" where
  "cell_cost pow width_val exponent_val counts_orig counts_trim i j =
     (if j = i
      then (if width_val < counts_trim ! i then 0
            else pow (real_of_int (width_val - counts_trim ! i)) exponent_val)
      else if fits_through width_val counts_orig counts_trim i j
           then pow (real_of_int (width_val - line_width counts_orig counts_trim i j)) exponent_val
           else - 1)"

definition row_state ::
  "(real \<Rightarrow> real \<Rightarrow> real) \<Rightarrow> nat \<Rightarrow> int \<Rightarrow> real \<Rightarrow> int list \<Rightarrow> int list \<Rightarrow>
     nat \<Rightarrow> real list \<Rightarrow> nat \<Rightarrow> int \<times> real list" where
  "row_state pow n width_val exponent_val counts_orig counts_trim i cost m =
     fold (cost_body pow n width_val exponent_val counts_orig counts_trim i) [i..<m] (0, cost)"

text \<open>
  \<open>col_breaks n where c\<close> lists the rows \<open>k\<close> whose cell \<open>(k, c)\<close> of \<^verbatim>\<open>where\<close> is
  set: the breaks recorded for the words \<open>0..c\<close>. \<open>plan_inv\<close> is the invariant of the
  main loop before the iteration \<open>j = m\<close>: the columns from \<open>m\<close> on are untouched, and
  every column before \<open>m\<close> holds breaks below its own index that cut the words
  \<open>0..c\<close> into lines of non-negative cost.
\<close>

definition col_breaks :: "nat \<Rightarrow> bool list \<Rightarrow> nat \<Rightarrow> nat list" where
  "col_breaks n where_v c = filter (\<lambda>k. where_v ! IDX n k c) [0..<n]"

definition plan_inv :: "nat \<Rightarrow> real list \<Rightarrow> nat \<Rightarrow> bool list \<Rightarrow> bool" where
  "plan_inv n cost m where_v \<longleftrightarrow>
     length where_v = n * n \<and>
     (\<forall>c k. m \<le> c \<and> c < n \<and> k < n \<longrightarrow> \<not> where_v ! IDX n k c) \<and>
     (\<forall>c<m. (\<forall>k<n. where_v ! IDX n k c \<longrightarrow> k < c) \<and>
        (\<forall>(a, b) \<in> set (line_groups (col_breaks n where_v c @ [c]) 0). 0 \<le> cost ! IDX n a b))"

subsection \<open>The word invariant, and two readings to compare with\<close>

text \<open>
  \<open>words_ok\<close> is the invariant of the measured words: the trimmed width of a word is
  not negative and not above its original width.
\<close>

definition words_ok :: "int list \<Rightarrow> int list \<Rightarrow> bool" where
  "words_ok counts_orig counts_trim =
     list_all2 (\<lambda>orig trim. 0 \<le> trim \<and> trim \<le> orig) counts_orig counts_trim"

text \<open>
  The greedy loop as the specification words it: \<open>j\<close> runs from 1 through
  \<open>wordCount - 2\<close>, where \<open>wordCount\<close> is the number of words.
\<close>

definition greedy_as_claimed :: "nat list \<Rightarrow> int \<Rightarrow> int list \<Rightarrow> int list \<Rightarrow> nat list" where
  "greedy_as_claimed wrap width_val counts_orig counts_trim =
     snd (fold (greedy_body width_val counts_orig counts_trim)
            [1..<length counts_orig - 1] (counts_orig ! 0, wrap))"

text \<open>
  The width of a line and its cost as the specification words them: every word but the
  last contributes its trimmed width, the last one its original width.
\<close>

definition claimed_line_sum :: "int list \<Rightarrow> int list \<Rightarrow> nat \<Rightarrow> nat \<Rightarrow> int" where
  "claimed_line_sum counts_orig counts_trim i j =
     sum_list (map (\<lambda>k. counts_trim ! k) [i..<j]) + counts_orig ! j"

definition claimed_cost ::
  "(real \<Rightarrow> real \<Rightarrow> real) \<Rightarrow> int \<Rightarrow> real \<Rightarrow> int list \<Rightarrow> int list \<Rightarrow> nat \<Rightarrow> nat \<Rightarrow> real" where
  "claimed_cost pow width_val exponent_val counts_orig counts_trim i j =
     (if width_val < claimed_line_sum counts_orig counts_trim i j then - 1
      else pow (real_of_int (width_val - claimed_line_sum counts_orig counts_trim i j)) exponent_val)"

section \<open>Code points of a line\<close>

text \<open>
  Notions for stating what the measurer counts. \<open>u8_step j\<close> is the offset after the
  sequence that \<^verbatim>\<open>U8_NEXT\<close> reads at \<open>j\<close>. \<open>cp_count x y\<close> is the number of code points
  \<^verbatim>\<open>U8_NEXT\<close> reads from the offset \<open>x\<close> before it reaches \<open>y\<close>: the code-point count
  of the bytes \<open>[x, y)\<close> of the string. \<open>aligned x y\<close> says that reading from \<open>x\<close> arrives
  at \<open>y\<close> exactly, so that the bytes \<open>[x, y)\<close> are whole code points.
\<close>

definition u8_step :: "icu \<Rightarrow> string \<Rightarrow> nat \<Rightarrow> nat" where
  "u8_step env s j = Suc j + fst (U8_NEXT env s j)"

function cp_count :: "icu \<Rightarrow> string \<Rightarrow> nat \<Rightarrow> nat \<Rightarrow> int" where
  "cp_count env s x y =
     (if x < y \<and> x < length s then 1 + cp_count env s (u8_step env s x) y else 0)"
  by pat_completeness auto
termination
  by (relation "measure (\<lambda>(env, s, x, y). y - x)") (auto simp: u8_step_def)

declare cp_count.simps [simp del]

function aligned :: "icu \<Rightarrow> string \<Rightarrow> nat \<Rightarrow> nat \<Rightarrow> bool" where
  "aligned env s x y =
     (if x < y \<and> x < length s then aligned env s (u8_step env s x) y else x = y)"
  by pat_completeness auto
termination
  by (relation "measure (\<lambda>(env, s, x, y). y - x)") (auto simp: u8_step_def)

declare aligned.simps [simp del]

text \<open>
  The contract of the segmenter: at least two boundaries, the first one 0, the last one
  the byte length, strictly increasing, and every word made of whole code points.
\<close>

definition well_segmented :: "icu \<Rightarrow> string \<Rightarrow> nat list \<Rightarrow> bool" where
  "well_segmented env s pos \<longleftrightarrow>
     2 \<le> length pos \<and> pos ! 0 = 0 \<and> last pos = length s \<and> sorted_wrt (<) pos \<and>
     list_all (\<lambda>k. aligned env s (pos ! k) (pos ! Suc k)) [0..<length pos - 1]"

text \<open>\<open>substring s x y\<close>: the bytes \<open>[x, y)\<close> of \<open>s\<close>.\<close>

definition substring :: "string \<Rightarrow> nat \<Rightarrow> nat \<Rightarrow> string" where
  "substring s x y = take (y - x) (drop x s)"

text \<open>
  The invariant of the measuring loop on a well-segmented string of valid code points:
  the scan stands inside the word \<open>cur_block\<close> (or at the end of the string), the running
  counts are those of the bytes read so far in this word, and the entries of the words
  already closed hold their code-point counts and their trimmed ends.
\<close>

definition scan_inv :: "icu \<Rightarrow> string \<Rightarrow> nat list \<Rightarrow> scan \<Rightarrow> bool" where
  "scan_inv env s pos st \<longleftrightarrow>
     length (s_counts_orig st) = length pos - 1 \<and>
     length (s_counts_trim st) = length pos - 1 \<and>
     length (s_end_pos_trim st) = length pos - 1 \<and>
     s_cur_block st < length pos \<and>
     aligned env s (pos ! s_cur_block st) (s_j st) \<and>
     (if s_j st < length s
      then Suc (s_cur_block st) < length pos \<and> s_j st < pos ! Suc (s_cur_block st)
      else s_j st = length s \<and> Suc (s_cur_block st) = length pos) \<and>
     s_cur_count_orig st = cp_count env s (pos ! s_cur_block st) (s_j st) \<and>
     pos ! s_cur_block st \<le> s_cur_end_pos_trim st \<and>
     s_cur_end_pos_trim st \<le> s_j st \<and>
     s_cur_count_orig st - s_cur_count_trim st =
       cp_count env s (pos ! s_cur_block st) (s_cur_end_pos_trim st) \<and>
     (\<forall>k<s_cur_block st.
        s_counts_orig st ! k = cp_count env s (pos ! k) (pos ! Suc k) \<and>
        s_counts_trim st ! k = cp_count env s (pos ! k) (s_end_pos_trim st ! k) \<and>
        pos ! k \<le> s_end_pos_trim st ! k \<and>
        s_end_pos_trim st ! k \<le> pos ! Suc k)"

section \<open>Character vectors: the fill loop\<close>

lemma fold_set_all:
  "m \<le> length xs \<Longrightarrow>
     fold (\<lambda>i ret. SET_STRING_ELT ret i v) [0..<m] xs = replicate m v @ drop m xs"
proof (induction m)
  case 0
  then show ?case by simp
next
  case (Suc m)
  then have "m < length xs" by simp
  then have "(replicate m v @ drop m xs)[m := v] = replicate (Suc m) v @ drop (Suc m) xs"
    by (simp add: list_update_append replicate_append_same upd_conv_take_nth_drop)
  with Suc show ?case by (simp add: SET_STRING_ELT_def)
qed

section \<open>The greedy planner: loop invariant\<close>

lemma greedy_loop_Suc:
  "1 \<le> m \<Longrightarrow> greedy_loop wrap width_val counts_orig counts_trim (Suc m) =
     greedy_body width_val counts_orig counts_trim m
       (greedy_loop wrap width_val counts_orig counts_trim m)"
  by (simp add: greedy_loop_def)

lemma greedy_loop_1:
  "greedy_loop wrap width_val counts_orig counts_trim (Suc 0) = (counts_orig ! 0, wrap)"
  by (simp add: greedy_loop_def)

lemma line_start_le: "line_start w x \<le> x"
proof (cases "rev (filter (\<lambda>b. b < x) w)")
  case Nil
  then show ?thesis by (simp add: line_start_def)
next
  case (Cons b bs)
  then have "b \<in> set (filter (\<lambda>b. b < x) w)"
    by (metis list.set_intros(1) set_rev)
  then have "b < x" by simp
  with Cons show ?thesis by (simp add: line_start_def)
qed

lemma line_start_snoc_new: "line_start (w @ [b]) (Suc b) = Suc b"
  by (simp add: line_start_def)

lemma line_start_snoc_old: "x \<le> b \<Longrightarrow> line_start (w @ [b]) x = line_start w x"
  by (simp add: line_start_def)

lemma line_start_all_below:
  "\<forall>b \<in> set w. b < x \<Longrightarrow> x \<le> y \<Longrightarrow> line_start w y = line_start w x"
proof -
  assume a: "\<forall>b \<in> set w. b < x" and xy: "x \<le> y"
  then have "filter (\<lambda>b. b < y) w = w" "filter (\<lambda>b. b < x) w = w"
    by (auto simp: filter_id_conv)
  then show ?thesis by (simp add: line_start_def)
qed

lemma greedy_loop_inv:
  "1 \<le> m \<Longrightarrow> greedy_loop [] width_val counts_orig counts_trim m = (cur, w) \<Longrightarrow>
     w = map (\<lambda>j. j - 1) (filter (greedy_breaks_before width_val counts_orig counts_trim w) [1..<m]) \<and>
     cur = sum_list (map (\<lambda>k. counts_orig ! k) [line_start w (m - 1)..<m]) \<and>
     (\<forall>b \<in> set w. Suc b < m)"
proof (induction m arbitrary: cur w)
  case 0
  then show ?case by simp
next
  case (Suc m)
  show ?case
  proof (cases "m = 0")
    case True
    with Suc.prems have "cur = counts_orig ! 0" "w = []"
      by (simp_all add: greedy_loop_1)
    with True show ?thesis by (simp add: line_start_def)
  next
    case False
    then have m1: "1 \<le> m" by simp
    obtain cur0 w0 where st0: "greedy_loop [] width_val counts_orig counts_trim m = (cur0, w0)"
      by (cases "greedy_loop [] width_val counts_orig counts_trim m")
    note ih = Suc.IH [OF m1 st0]
    from ih have w0: "w0 = map (\<lambda>j. j - 1)
         (filter (greedy_breaks_before width_val counts_orig counts_trim w0) [1..<m])"
      and cur0: "cur0 = sum_list (map (\<lambda>k. counts_orig ! k) [line_start w0 (m - 1)..<m])"
      and below: "\<forall>b \<in> set w0. Suc b < m"
      by blast+
    have step: "(cur, w) = greedy_body width_val counts_orig counts_trim m (cur0, w0)"
      using Suc.prems(2) st0 m1 by (simp add: greedy_loop_Suc)
    have lsle: "line_start w0 (m - 1) \<le> m - 1" by (rule line_start_le)
    have cw: "cur0 + counts_trim ! m =
        line_width counts_orig counts_trim (line_start w0 (m - 1)) m"
      by (simp add: cur0 line_width_def)
    show ?thesis
    proof (cases "cur0 + counts_trim ! m > width_val")
      case True
      with step have cur: "cur = counts_orig ! m" and w: "w = w0 @ [m - 1]"
        by (simp_all add: greedy_body_def)
      have same: "greedy_breaks_before width_val counts_orig counts_trim w j =
          greedy_breaks_before width_val counts_orig counts_trim w0 j"
        if "j \<in> set [1..<Suc m]" for j
      proof -
        from that have "j - 1 \<le> m - 1" by auto
        then have "line_start (w0 @ [m - 1]) (j - 1) = line_start w0 (j - 1)"
          by (rule line_start_snoc_old)
        then show ?thesis by (simp add: greedy_breaks_before_def w)
      qed
      have at_m: "greedy_breaks_before width_val counts_orig counts_trim w0 m"
        using True cw by (simp add: greedy_breaks_before_def)
      have "filter (greedy_breaks_before width_val counts_orig counts_trim w) [1..<Suc m] =
            filter (greedy_breaks_before width_val counts_orig counts_trim w0) [1..<Suc m]"
        using same by (intro filter_cong) auto
      also have "\<dots> = filter (greedy_breaks_before width_val counts_orig counts_trim w0) [1..<m] @ [m]"
        using m1 at_m by simp
      finally have a: "w = map (\<lambda>j. j - 1)
          (filter (greedy_breaks_before width_val counts_orig counts_trim w) [1..<Suc m])"
        using w0 w by simp
      have "line_start w (Suc m - 1) = m"
        using line_start_snoc_new [of w0 "m - 1"] m1 w by simp
      then have b: "cur = sum_list (map (\<lambda>k. counts_orig ! k) [line_start w (Suc m - 1)..<Suc m])"
        by (simp add: cur)
      have c: "\<forall>b \<in> set w. Suc b < Suc m"
        using below w m1 by auto
      from a b c show ?thesis by blast
    next
      case False
      with step have cur: "cur = cur0 + counts_orig ! m" and w: "w = w0"
        by (simp_all add: greedy_body_def)
      have not_m: "\<not> greedy_breaks_before width_val counts_orig counts_trim w0 m"
        using False cw by (simp add: greedy_breaks_before_def)
      have a: "w = map (\<lambda>j. j - 1)
          (filter (greedy_breaks_before width_val counts_orig counts_trim w) [1..<Suc m])"
        using w0 w not_m m1 by simp
      have "\<forall>b \<in> set w0. b < m - 1" using below by auto
      then have "line_start w0 m = line_start w0 (m - 1)"
        by (rule line_start_all_below) simp
      moreover from lsle have "line_start w0 (m - 1) \<le> m" by simp
      ultimately have b: "cur = sum_list (map (\<lambda>k. counts_orig ! k) [line_start w (Suc m - 1)..<Suc m])"
        by (simp add: cur cur0 w)
      have c: "\<forall>b \<in> set w. Suc b < Suc m"
        using below w by auto
      from a b c show ?thesis by blast
    qed
  qed
qed

lemma greedy_wrap_filter:
  assumes "1 \<le> nat (noccurences - 1)"
  shows "stri__wrap_greedy [] noccurences width_val counts_orig counts_trim =
     map (\<lambda>j. j - 1)
       (filter (greedy_breaks_before width_val counts_orig counts_trim
                  (stri__wrap_greedy [] noccurences width_val counts_orig counts_trim))
          [1..<nat (noccurences - 1)])"
proof -
  obtain cur w where st:
    "greedy_loop [] width_val counts_orig counts_trim (nat (noccurences - 1)) = (cur, w)"
    by (cases "greedy_loop [] width_val counts_orig counts_trim (nat (noccurences - 1))")
  then have eq: "stri__wrap_greedy [] noccurences width_val counts_orig counts_trim = w"
    by (simp add: stri__wrap_greedy_def)
  from greedy_loop_inv [OF assms st]
  have "w = map (\<lambda>j. j - 1)
     (filter (greedy_breaks_before width_val counts_orig counts_trim w) [1..<nat (noccurences - 1)])"
    by (rule conjunct1)
  then show ?thesis unfolding eq .
qed

lemma greedy_wrap_image:
  assumes "1 \<le> nat (noccurences - 1)"
  shows "\<exists>js. stri__wrap_greedy [] noccurences width_val counts_orig counts_trim = map (\<lambda>j. j - 1) js \<and>
     js = filter (greedy_breaks_before width_val counts_orig counts_trim
                  (stri__wrap_greedy [] noccurences width_val counts_orig counts_trim))
            [1..<nat (noccurences - 1)]"
  using greedy_wrap_filter [OF assms] by blast

lemma greedy_break_iff:
  assumes "1 \<le> j" "j < nat (noccurences - 1)"
  shows "j - 1 \<in> set (stri__wrap_greedy [] noccurences width_val counts_orig counts_trim) \<longleftrightarrow>
     greedy_breaks_before width_val counts_orig counts_trim
       (stri__wrap_greedy [] noccurences width_val counts_orig counts_trim) j"
proof -
  let ?w = "stri__wrap_greedy [] noccurences width_val counts_orig counts_trim"
  let ?P = "greedy_breaks_before width_val counts_orig counts_trim ?w"
  from assms have "1 \<le> nat (noccurences - 1)" by simp
  from greedy_wrap_image [OF this] obtain js where w: "?w = map (\<lambda>j. j - 1) js"
    and js: "js = filter ?P [1..<nat (noccurences - 1)]" by blast
  have mem: "j' \<in> set js \<longleftrightarrow> 1 \<le> j' \<and> j' < nat (noccurences - 1) \<and> ?P j'" for j'
    unfolding js by auto
  have "j - 1 \<in> set ?w \<longleftrightarrow> (\<exists>j' \<in> set js. j - 1 = j' - 1)"
    unfolding w by auto
  also have "\<dots> \<longleftrightarrow> ?P j"
  proof
    assume "\<exists>j' \<in> set js. j - 1 = j' - 1"
    then obtain j' where j': "j' \<in> set js" "j - 1 = j' - 1" by blast
    from j'(1) have "1 \<le> j'" "?P j'" unfolding mem by blast+
    with assms(1) j'(2) have "j' = j" by simp
    with \<open>?P j'\<close> show "?P j" by simp
  next
    assume "?P j"
    with assms have "j \<in> set js" unfolding mem by blast
    then show "\<exists>j' \<in> set js. j - 1 = j' - 1" by blast
  qed
  finally show ?thesis .
qed

lemma greedy_wrap_sorted:
  "sorted_wrt (<) (stri__wrap_greedy [] noccurences width_val counts_orig counts_trim) \<and>
   (\<forall>b \<in> set (stri__wrap_greedy [] noccurences width_val counts_orig counts_trim).
      int b \<le> noccurences - 3)"
proof (cases "1 \<le> nat (noccurences - 1)")
  case False
  then have "stri__wrap_greedy [] noccurences width_val counts_orig counts_trim = []"
    by (simp add: stri__wrap_greedy_def greedy_loop_def)
  then show ?thesis by simp
next
  case True
  let ?w = "stri__wrap_greedy [] noccurences width_val counts_orig counts_trim"
  let ?P = "greedy_breaks_before width_val counts_orig counts_trim ?w"
  from greedy_wrap_image [OF True] obtain js where w: "?w = map (\<lambda>j. j - 1) js"
    and js: "js = filter ?P [1..<nat (noccurences - 1)]" by blast
  have mem: "\<forall>j \<in> set js. 1 \<le> j \<and> j < nat (noccurences - 1)"
    unfolding js by auto
  have sjs: "sorted_wrt (<) js" unfolding js by (rule sorted_wrt_filter) simp
  have "sorted_wrt (\<lambda>x y. x - 1 < y - 1) js"
  proof (rule sorted_wrt_mono_rel [OF _ sjs])
    fix x y
    assume "x \<in> set js" "y \<in> set js" "x < y"
    with mem show "x - 1 < y - 1" by auto
  qed
  then have s: "sorted_wrt (<) (map (\<lambda>j. j - 1) js)" by (simp add: sorted_wrt_map)
  from mem have "\<forall>b \<in> set (map (\<lambda>j. j - 1) js). int b \<le> noccurences - 3" by auto
  with s show ?thesis unfolding w by blast
qed

lemma line_groups_snoc:
  "line_groups (xs @ [y]) a = line_groups xs a @ [(if xs = [] then a else Suc (last xs), y)]"
  by (induction xs arbitrary: a) auto

lemma line_groups_props:
  "sorted_wrt (<) ws \<Longrightarrow> \<forall>x \<in> set ws. a0 \<le> x \<Longrightarrow> (a, b) \<in> set (line_groups ws a0) \<Longrightarrow>
     b \<in> set ws \<and> a0 \<le> a \<and> a \<le> b \<and> (\<forall>x \<in> set ws. \<not> (a \<le> x \<and> x < b)) \<and>
     (a = a0 \<or> (1 \<le> a \<and> a - 1 \<in> set ws))"
proof (induction ws arbitrary: a0)
  case Nil
  then show ?case by simp
next
  case (Cons w ws)
  from Cons.prems(3) consider "(a, b) = (a0, w)" | "(a, b) \<in> set (line_groups ws (Suc w))"
    by auto
  then show ?case
  proof cases
    case 1
    with Cons.prems(1,2) show ?thesis by auto
  next
    case 2
    from Cons.prems(1) have s: "sorted_wrt (<) ws" and lo: "\<forall>x \<in> set ws. Suc w \<le> x"
      by auto
    from Cons.IH [OF s lo 2] Cons.prems(2) show ?thesis by auto
  qed
qed

lemma line_start_snoc: "line_start (ws @ [y]) x = (if y < x then Suc y else line_start ws x)"
  by (simp add: line_start_def)

lemma line_start_unique:
  "sorted_wrt (<) ws \<Longrightarrow> a = 0 \<or> (1 \<le> a \<and> a - 1 \<in> set ws) \<Longrightarrow> a \<le> x \<Longrightarrow>
     \<forall>y \<in> set ws. \<not> (a \<le> y \<and> y < x) \<Longrightarrow> line_start ws x = a"
proof (induction ws rule: rev_induct)
  case Nil
  then show ?case by (simp add: line_start_def)
next
  case (snoc y ws)
  from snoc.prems(1) have s: "sorted_wrt (<) ws" and below: "\<forall>z \<in> set ws. z < y"
    by (auto simp: sorted_wrt_append)
  show ?case
  proof (cases "y < x")
    case True
    with snoc.prems(4) have ya: "y < a" by auto
    with snoc.prems(2) below have "a - 1 = y" by auto
    with ya True show ?thesis by (simp add: line_start_snoc)
  next
    case False
    with snoc.prems(2,3) have a: "a = 0 \<or> (1 \<le> a \<and> a - 1 \<in> set ws)" by auto
    from snoc.prems(4) have "\<forall>y \<in> set ws. \<not> (a \<le> y \<and> y < x)" by simp
    from snoc.IH [OF s a snoc.prems(3) this] False show ?thesis
      by (simp add: line_start_snoc)
  qed
qed

lemma greedy_lines_fit:
  assumes n: "1 \<le> nat (noccurences - 1)"
    and ab: "(a, b) \<in> set (line_groups
       (stri__wrap_greedy [] noccurences width_val counts_orig counts_trim @ [nat (noccurences - 2)]) 0)"
  shows "a \<le> b \<and> b < nat (noccurences - 1) \<and>
     (a < b \<longrightarrow> line_width counts_orig counts_trim a b \<le> width_val)"
proof -
  let ?w = "stri__wrap_greedy [] noccurences width_val counts_orig counts_trim"
  let ?t = "nat (noccurences - 2)"
  from greedy_wrap_sorted [of noccurences width_val counts_orig counts_trim]
  have s: "sorted_wrt (<) ?w" and hi: "\<forall>x \<in> set ?w. int x \<le> noccurences - 3" by blast+
  from hi have hi': "\<forall>x \<in> set ?w. x < ?t" by auto
  with s have s': "sorted_wrt (<) (?w @ [?t])" by (simp add: sorted_wrt_append)
  from line_groups_props [OF s' _ ab]
  have b: "b \<in> set (?w @ [?t])" and le: "a \<le> b"
    and none: "\<forall>x \<in> set (?w @ [?t]). \<not> (a \<le> x \<and> x < b)"
    and a: "a = 0 \<or> (1 \<le> a \<and> a - 1 \<in> set (?w @ [?t]))"
    by simp_all
  from b hi' n have bn: "b < nat (noccurences - 1)" by auto
  have fit: "line_width counts_orig counts_trim a b \<le> width_val" if ab: "a < b"
  proof -
    from b hi' have bt: "b \<le> ?t" by auto
    from a ab bt have a': "a = 0 \<or> (1 \<le> a \<and> a - 1 \<in> set ?w)" by auto
    from none have none': "\<forall>y \<in> set ?w. \<not> (a \<le> y \<and> y < b - 1)" by auto
    from ab have "a \<le> b - 1" by simp
    from line_start_unique [OF s a' this none'] have ls: "line_start ?w (b - 1) = a" .
    from none ab have "b - 1 \<notin> set ?w" by auto
    moreover from ab bn have "1 \<le> b" "b < nat (noccurences - 1)" by simp_all
    ultimately have "\<not> greedy_breaks_before width_val counts_orig counts_trim ?w b"
      using greedy_break_iff [of b noccurences width_val counts_orig counts_trim] by simp
    with ls show ?thesis by (simp add: greedy_breaks_before_def)
  qed
  from le bn fit show ?thesis by blast
qed

section \<open>The cost matrix\<close>

lemma IDX_less: "i < n \<Longrightarrow> j < n \<Longrightarrow> IDX n i j < n * n"
proof -
  assume i: "i < n" and j: "j < n"
  have "i * n + j < i * n + n" using j by simp
  also have "\<dots> = Suc i * n" by simp
  also have "\<dots> \<le> n * n" using i by (simp only: mult_le_mono1 Suc_leI)
  finally show ?thesis by (simp add: IDX_def)
qed

lemma IDX_inj: "j < n \<Longrightarrow> j' < n \<Longrightarrow> IDX n i j = IDX n i' j' \<longleftrightarrow> i = i' \<and> j = j'"
proof
  assume j: "j < n" and j': "j' < n" and eq: "IDX n i j = IDX n i' j'"
  from eq have "(i * n + j) div n = (i' * n + j') div n" "(i * n + j) mod n = (i' * n + j') mod n"
    by (simp_all add: IDX_def)
  with j j' show "i = i' \<and> j = j'" by simp
qed simp

lemma nth_update_IDX:
  "length xs = n * n \<Longrightarrow> i < n \<Longrightarrow> j < n \<Longrightarrow> j' < n \<Longrightarrow>
     xs[IDX n i j := v] ! IDX n i' j' = (if i' = i \<and> j' = j then v else xs ! IDX n i' j')"
  using IDX_less [of i n j] IDX_inj [of j n j' i i']
  by (auto simp: nth_list_update)

lemma fits_through_Suc:
  "i \<le> j \<Longrightarrow> fits_through width_val counts_orig counts_trim i (Suc j) \<longleftrightarrow>
     fits_through width_val counts_orig counts_trim i j \<and>
     line_width counts_orig counts_trim i (Suc j) \<le> width_val"
  by (simp add: fits_through_def)

lemma fits_through_self: "fits_through width_val counts_orig counts_trim i i"
  by (simp add: fits_through_def)

lemma fits_through_last:
  "i < j \<Longrightarrow> fits_through width_val counts_orig counts_trim i j \<Longrightarrow>
     line_width counts_orig counts_trim i j \<le> width_val"
  by (simp add: fits_through_def list_all_iff)

lemma line_width_Suc:
  "i \<le> j \<Longrightarrow> line_width counts_orig counts_trim i (Suc j) =
     line_width counts_orig counts_trim i j - counts_trim ! j + counts_orig ! j + counts_trim ! Suc j"
  by (simp add: line_width_def)

lemma row_state_Suc:
  "i \<le> m \<Longrightarrow> row_state pow n width_val exponent_val counts_orig counts_trim i cost (Suc m) =
     cost_body pow n width_val exponent_val counts_orig counts_trim i m
       (row_state pow n width_val exponent_val counts_orig counts_trim i cost m)"
  by (simp add: row_state_def)

lemma cell_cost_neg:
  assumes pw: "\<forall>x\<ge>0. 0 \<le> pow x exponent_val" and ij: "i \<le> j"
  shows "cell_cost pow width_val exponent_val counts_orig counts_trim i j < 0 \<longleftrightarrow>
     i < j \<and> \<not> fits_through width_val counts_orig counts_trim i j"
proof -
  have a: "0 \<le> pow (real_of_int (width_val - counts_trim ! i)) exponent_val"
    if "\<not> width_val < counts_trim ! i"
    using that pw by simp
  have b: "0 \<le> pow (real_of_int (width_val - line_width counts_orig counts_trim i j)) exponent_val"
    if "line_width counts_orig counts_trim i j \<le> width_val"
    using that pw by simp
  show ?thesis
  proof (cases "j = i")
    case True
    with a show ?thesis by (auto simp: cell_cost_def not_less)
  next
    case False
    with ij have lt: "i < j" by simp
    show ?thesis
    proof (cases "fits_through width_val counts_orig counts_trim i j")
      case True
      from b [OF fits_through_last [OF lt True]] True False show ?thesis
        by (simp add: cell_cost_def not_less)
    next
      case False
      with lt show ?thesis by (simp add: cell_cost_def)
    qed
  qed
qed

lemma row_state_inv:
  assumes pw: "\<forall>x\<ge>0. 0 \<le> pow x exponent_val"
    and len0: "length cost0 = n * n" and i: "i < n"
  shows "i \<le> m \<Longrightarrow> m \<le> n \<Longrightarrow>
     row_state pow n width_val exponent_val counts_orig counts_trim i cost0 m = (sm, cost) \<Longrightarrow>
     length cost = n * n \<and>
     (\<forall>j. i \<le> j \<and> j < m \<longrightarrow>
        cost ! IDX n i j = cell_cost pow width_val exponent_val counts_orig counts_trim i j) \<and>
     (\<forall>i' j'. j' < n \<and> \<not> (i' = i \<and> i \<le> j' \<and> j' < m) \<longrightarrow>
        cost ! IDX n i' j' = cost0 ! IDX n i' j') \<and>
     (m = i \<longrightarrow> sm = 0) \<and>
     (i < m \<and> 0 \<le> cost ! IDX n i (m - 1) \<longrightarrow> sm = line_width counts_orig counts_trim i (m - 1))"
proof (induction m arbitrary: sm cost)
  case 0
  then show ?case using len0 by (simp add: row_state_def)
next
  case (Suc m)
  let ?cc = "cell_cost pow width_val exponent_val counts_orig counts_trim"
  show ?case
  proof (cases "i = Suc m")
    case True
    with Suc.prems(3) have "sm = 0" "cost = cost0" by (simp_all add: row_state_def)
    with True len0 show ?thesis by auto
  next
    case False
    with Suc.prems(1) have im: "i \<le> m" by simp
    from Suc.prems(2) have mn: "m < n" "m \<le> n" by simp_all
    obtain sm0 c0 where st0:
      "row_state pow n width_val exponent_val counts_orig counts_trim i cost0 m = (sm0, c0)"
      by (cases "row_state pow n width_val exponent_val counts_orig counts_trim i cost0 m")
    from Suc.IH [OF im mn(2) st0]
    have len: "length c0 = n * n"
      and cells: "\<forall>j. i \<le> j \<and> j < m \<longrightarrow> c0 ! IDX n i j = ?cc i j"
      and frame: "\<forall>i' j'. j' < n \<and> \<not> (i' = i \<and> i \<le> j' \<and> j' < m) \<longrightarrow>
          c0 ! IDX n i' j' = cost0 ! IDX n i' j'"
      and sm_i: "m = i \<longrightarrow> sm0 = 0"
      and sm_w: "i < m \<and> 0 \<le> c0 ! IDX n i (m - 1) \<longrightarrow>
          sm0 = line_width counts_orig counts_trim i (m - 1)"
      by blast+
    have step: "(sm, cost) =
        cost_body pow n width_val exponent_val counts_orig counts_trim i m (sm0, c0)"
      using Suc.prems(3) st0 im by (simp add: row_state_Suc)
    have upd: "c0[IDX n i m := v] ! IDX n i' j' =
        (if i' = i \<and> j' = m then v else c0 ! IDX n i' j')" if "j' < n" for v i' j'
      using nth_update_IDX [OF len i mn(1) that] .
    \<comment> \<open>the value written to the cell \<open>(i, m)\<close>, and the new sum\<close>
    have main: "\<exists>v. cost = c0[IDX n i m := v] \<and> v = ?cc i m \<and>
        (0 \<le> v \<longrightarrow> sm = line_width counts_orig counts_trim i m)"
    proof (cases "i < m")
      case False
      with im have mi: "m = i" by simp
      with sm_i have sm0: "sm0 = 0" by simp
      from step mi sm0 show ?thesis
        by (simp add: cost_body_def Let_def cell_cost_def line_width_def)
    next
      case lt: True
      then obtain k where k: "m = Suc k" "i \<le> k" by (cases m) auto
      have prev: "c0 ! IDX n i k = ?cc i k" using cells k by simp
      show ?thesis
      proof (cases "c0 ! IDX n i k < 0")
        case True
        with prev cell_cost_neg [where pow = pow and exponent_val = exponent_val, OF pw k(2),
            of width_val counts_orig counts_trim]
        have "\<not> fits_through width_val counts_orig counts_trim i k" by simp
        then have "\<not> fits_through width_val counts_orig counts_trim i m"
          using k by (simp add: fits_through_Suc)
        with lt have "?cc i m = - 1" by (simp add: cell_cost_def)
        with step True lt k show ?thesis by (simp add: cost_body_def)
      next
        case False
        then have nn: "0 \<le> c0 ! IDX n i (m - 1)" using k by simp
        with sm_w lt k have sm0: "sm0 = line_width counts_orig counts_trim i k" by simp
        from False prev cell_cost_neg [where pow = pow and exponent_val = exponent_val, OF pw k(2),
            of width_val counts_orig counts_trim]
        have ft: "i < k \<longrightarrow> fits_through width_val counts_orig counts_trim i k" by auto
        have ftk: "fits_through width_val counts_orig counts_trim i k"
        proof (cases "i < k")
          case True
          with ft show ?thesis by simp
        next
          case False
          with k have "k = i" by simp
          then show ?thesis by (simp add: fits_through_self)
        qed
        have lw: "sm0 - counts_trim ! k + counts_orig ! k + counts_trim ! m =
            line_width counts_orig counts_trim i m"
          using k by (simp add: sm0 line_width_Suc)
        have ftm: "fits_through width_val counts_orig counts_trim i m \<longleftrightarrow>
            line_width counts_orig counts_trim i m \<le> width_val"
          using k ftk by (simp add: fits_through_Suc)
        from step False lt k lw ftm show ?thesis
          by (auto simp: cost_body_def Let_def cell_cost_def not_less)
      qed
    qed
    then obtain v where cost: "cost = c0[IDX n i m := v]" and v: "v = ?cc i m"
      and smv: "0 \<le> v \<longrightarrow> sm = line_width counts_orig counts_trim i m"
      by blast
    have 1: "length cost = n * n" using len cost by simp
    have 2: "\<forall>j. i \<le> j \<and> j < Suc m \<longrightarrow> cost ! IDX n i j = ?cc i j"
    proof (intro allI impI)
      fix j
      assume j: "i \<le> j \<and> j < Suc m"
      then have "j < n" using mn by simp
      from upd [OF this] j cells v show "cost ! IDX n i j = ?cc i j"
        by (cases "j = m") (simp_all add: cost)
    qed
    have 3: "\<forall>i' j'. j' < n \<and> \<not> (i' = i \<and> i \<le> j' \<and> j' < Suc m) \<longrightarrow>
        cost ! IDX n i' j' = cost0 ! IDX n i' j'"
    proof (intro allI impI)
      fix i' j'
      assume a: "j' < n \<and> \<not> (i' = i \<and> i \<le> j' \<and> j' < Suc m)"
      then have ne: "\<not> (i' = i \<and> j' = m)" using im by auto
      from a have j': "j' < n" by simp
      have "cost ! IDX n i' j' = c0 ! IDX n i' j'"
        unfolding cost upd [OF j'] using ne by auto
      moreover from a have "\<not> (i' = i \<and> i \<le> j' \<and> j' < m)" by auto
      with frame j' have "c0 ! IDX n i' j' = cost0 ! IDX n i' j'" by blast
      ultimately show "cost ! IDX n i' j' = cost0 ! IDX n i' j'" by simp
    qed
    have 4: "Suc m = i \<longrightarrow> sm = 0" using False by simp
    have 5: "i < Suc m \<and> 0 \<le> cost ! IDX n i (Suc m - 1) \<longrightarrow>
        sm = line_width counts_orig counts_trim i (Suc m - 1)"
      using upd [OF mn(1), of v i] smv by (simp add: cost)
    from 1 2 3 4 5 show ?thesis by blast
  qed
qed


lemma cost_row_cells:
  assumes pw: "\<forall>x\<ge>0. 0 \<le> pow x exponent_val"
    and len0: "length cost0 = n * n" and i: "i < n"
  shows "length (cost_row pow n width_val exponent_val counts_orig counts_trim i cost0) = n * n"
    and "\<And>j. i \<le> j \<Longrightarrow> j < n \<Longrightarrow>
       cost_row pow n width_val exponent_val counts_orig counts_trim i cost0 ! IDX n i j =
       cell_cost pow width_val exponent_val counts_orig counts_trim i j"
    and "\<And>i' j'. j' < n \<Longrightarrow> i' \<noteq> i \<Longrightarrow>
       cost_row pow n width_val exponent_val counts_orig counts_trim i cost0 ! IDX n i' j' =
       cost0 ! IDX n i' j'"
proof -
  obtain sm cost where st:
    "row_state pow n width_val exponent_val counts_orig counts_trim i cost0 n = (sm, cost)"
    by (cases "row_state pow n width_val exponent_val counts_orig counts_trim i cost0 n")
  then have eq: "cost_row pow n width_val exponent_val counts_orig counts_trim i cost0 = cost"
    by (simp add: cost_row_def row_state_def)
  from i have "i \<le> n" by simp
  note inv = row_state_inv [where pow = pow and exponent_val = exponent_val,
      OF pw len0 i this order_refl st]
  from inv show "length (cost_row pow n width_val exponent_val counts_orig counts_trim i cost0) = n * n"
    unfolding eq by blast
  from inv show "\<And>j. i \<le> j \<Longrightarrow> j < n \<Longrightarrow>
       cost_row pow n width_val exponent_val counts_orig counts_trim i cost0 ! IDX n i j =
       cell_cost pow width_val exponent_val counts_orig counts_trim i j"
    unfolding eq by blast
  from inv show "\<And>i' j'. j' < n \<Longrightarrow> i' \<noteq> i \<Longrightarrow>
       cost_row pow n width_val exponent_val counts_orig counts_trim i cost0 ! IDX n i' j' =
       cost0 ! IDX n i' j'"
    unfolding eq by blast
qed

lemma cost_rows_inv:
  assumes pw: "\<forall>x\<ge>0. 0 \<le> pow x exponent_val"
  shows "r \<le> n \<Longrightarrow>
     length (fold (cost_row pow n width_val exponent_val counts_orig counts_trim) [0..<r]
               (replicate (n * n) 0)) = n * n \<and>
     (\<forall>i j. i < r \<and> i \<le> j \<and> j < n \<longrightarrow>
        fold (cost_row pow n width_val exponent_val counts_orig counts_trim) [0..<r]
          (replicate (n * n) 0) ! IDX n i j =
        cell_cost pow width_val exponent_val counts_orig counts_trim i j)"
proof (induction r)
  case 0
  then show ?case by simp
next
  case (Suc r)
  let ?old = "fold (cost_row pow n width_val exponent_val counts_orig counts_trim) [0..<r]
               (replicate (n * n) 0)"
  let ?new = "cost_row pow n width_val exponent_val counts_orig counts_trim r ?old"
  from Suc.prems have r: "r < n" and r': "r \<le> n" by simp_all
  from Suc.IH [OF r'] have len0: "length ?old = n * n"
    and old: "\<forall>i j. i < r \<and> i \<le> j \<and> j < n \<longrightarrow>
        ?old ! IDX n i j = cell_cost pow width_val exponent_val counts_orig counts_trim i j"
    by blast+
  note row = cost_row_cells [where pow = pow and exponent_val = exponent_val, OF pw len0 r]
  have eq: "fold (cost_row pow n width_val exponent_val counts_orig counts_trim) [0..<Suc r]
               (replicate (n * n) 0) = ?new"
    by simp
  have "?new ! IDX n i j = cell_cost pow width_val exponent_val counts_orig counts_trim i j"
    if "i < Suc r" "i \<le> j" "j < n" for i j
  proof (cases "i = r")
    case True
    with that row(2) show ?thesis by simp
  next
    case False
    with that have "i < r" by simp
    with old that have "?old ! IDX n i j =
        cell_cost pow width_val exponent_val counts_orig counts_trim i j" by simp
    with row(3) [OF that(3) False] show ?thesis by simp
  qed
  with row(1) show ?case unfolding eq by blast
qed

lemma calc_costs_length:
  "\<forall>x\<ge>0. 0 \<le> pow x exponent_val \<Longrightarrow>
     length (calc_costs pow n width_val exponent_val counts_orig counts_trim) = n * n"
  using cost_rows_inv [where pow = pow and exponent_val = exponent_val and r = n and n = n]
  by (simp add: calc_costs_def)

lemma calc_costs_cell:
  "\<forall>x\<ge>0. 0 \<le> pow x exponent_val \<Longrightarrow> i \<le> j \<Longrightarrow> j < n \<Longrightarrow>
     calc_costs pow n width_val exponent_val counts_orig counts_trim ! IDX n i j =
     cell_cost pow width_val exponent_val counts_orig counts_trim i j"
  using cost_rows_inv [where pow = pow and exponent_val = exponent_val and r = n and n = n]
  by (simp add: calc_costs_def)

section \<open>The dynamic planner: loop invariant\<close>

lemma first_fit_props:
  "\<exists>k. i \<le> k \<and> k \<le> j \<and> 0 \<le> cost ! IDX n (k + 1) j \<Longrightarrow>
     i \<le> first_fit n cost j i \<and> first_fit n cost j i \<le> j \<and>
     0 \<le> cost ! IDX n (first_fit n cost j i + 1) j \<and>
     (\<forall>k. i \<le> k \<and> k < first_fit n cost j i \<longrightarrow> cost ! IDX n (k + 1) j < 0)"
proof (induction n cost j i rule: first_fit.induct)
  case (1 n cost j i)
  from "1.prems" have ij: "i \<le> j" by auto
  show ?case
  proof (cases "0 \<le> cost ! IDX n (i + 1) j")
    case True
    with ij have "first_fit n cost j i = i" by (simp add: first_fit.simps)
    with True ij show ?thesis by simp
  next
    case False
    with ij have ff: "first_fit n cost j i = first_fit n cost j (i + 1)"
      by (subst first_fit.simps) simp
    from "1.prems" False have "\<exists>k. i + 1 \<le> k \<and> k \<le> j \<and> 0 \<le> cost ! IDX n (k + 1) j"
      by (metis Suc_eq_plus1 Suc_leI le_neq_implies_less)
    from "1.IH" [OF ij False this]
    have a: "i + 1 \<le> first_fit n cost j (i + 1)" "first_fit n cost j (i + 1) \<le> j"
        "0 \<le> cost ! IDX n (first_fit n cost j (i + 1) + 1) j"
      and b: "\<forall>k. i + 1 \<le> k \<and> k < first_fit n cost j (i + 1) \<longrightarrow> cost ! IDX n (k + 1) j < 0"
      by blast+
    have "cost ! IDX n (k + 1) j < 0" if "i \<le> k" "k < first_fit n cost j (i + 1)" for k
    proof (cases "k = i")
      case True
      with False show ?thesis by simp
    next
      case False
      with that b show ?thesis by simp
    qed
    with a show ?thesis unfolding ff by simp
  qed
qed

lemma best_fold_props:
  "fold (best_body n cost f j) [a..<b] (v0, i0) = (v, i) \<Longrightarrow>
     (i = i0 \<and> v = v0) \<or> (a \<le> i \<and> i < b \<and> 0 \<le> cost ! IDX n (i + 1) j)"
proof (induction b arbitrary: v i)
  case 0
  then show ?case by simp
next
  case (Suc b)
  show ?case
  proof (cases "a \<le> b")
    case False
    with Suc.prems show ?thesis by simp
  next
    case True
    obtain v1 i1 where st: "fold (best_body n cost f j) [a..<b] (v0, i0) = (v1, i1)"
      by (cases "fold (best_body n cost f j) [a..<b] (v0, i0)")
    from Suc.IH [OF st]
    have ih: "(i1 = i0 \<and> v1 = v0) \<or> (a \<le> i1 \<and> i1 < b \<and> 0 \<le> cost ! IDX n (i1 + 1) j)" .
    from Suc.prems True st have "(v, i) = best_body n cost f j b (v1, i1)" by simp
    then have "(v, i) = (v1, i1) \<or> (i = b \<and> 0 \<le> cost ! IDX n (b + 1) j)"
      by (auto simp: best_body_def Let_def split: if_splits)
    with ih True show ?thesis by auto
  qed
qed

lemma best_break_props:
  assumes "1 \<le> j" "0 \<le> cost ! IDX n j j" "best_break n cost f j = (v, i)"
  shows "i < j \<and> 0 \<le> cost ! IDX n (i + 1) j"
proof -
  let ?i0 = "first_fit n cost j 0"
  from assms(1,2) have "\<exists>k. 0 \<le> k \<and> k \<le> j \<and> 0 \<le> cost ! IDX n (k + 1) j"
    by (intro exI [of _ "j - 1"]) simp
  from first_fit_props [OF this]
  have nn: "0 \<le> cost ! IDX n (?i0 + 1) j"
    and low: "\<forall>k. 0 \<le> k \<and> k < ?i0 \<longrightarrow> cost ! IDX n (k + 1) j < 0"
    by blast+
  have i0: "?i0 < j"
  proof (rule ccontr)
    assume "\<not> ?i0 < j"
    with assms(1) have "j - 1 < ?i0" by simp
    with low have "cost ! IDX n (j - 1 + 1) j < 0" by blast
    with assms(1,2) show False by simp
  qed
  from assms(3) have "fold (best_body n cost f j) [?i0 + 1..<j]
      (f ! 0 + cost ! IDX n (?i0 + 1) j, ?i0) = (v, i)"
    by (simp add: best_break_def Let_def)
  from best_fold_props [OF this] nn i0 show ?thesis by auto
qed

lemma copy_fold:
  assumes len: "length wh = n * n" and i: "i < n" and j: "j < n" and ij: "i \<noteq> j"
  shows "m \<le> n \<Longrightarrow>
     length (fold (\<lambda>k w. w[IDX n k j := w ! IDX n k i]) [0..<m] wh) = n * n \<and>
     (\<forall>k c. c < n \<longrightarrow>
        fold (\<lambda>k w. w[IDX n k j := w ! IDX n k i]) [0..<m] wh ! IDX n k c =
        (if c = j \<and> k < m then wh ! IDX n k i else wh ! IDX n k c))"
proof (induction m)
  case 0
  then show ?case using len by simp
next
  case (Suc m)
  let ?w0 = "fold (\<lambda>k w. w[IDX n k j := w ! IDX n k i]) [0..<m] wh"
  from Suc.prems have m: "m < n" "m \<le> n" by simp_all
  from Suc.IH [OF m(2)] have len0: "length ?w0 = n * n"
    and cells: "\<forall>k c. c < n \<longrightarrow>
        ?w0 ! IDX n k c = (if c = j \<and> k < m then wh ! IDX n k i else wh ! IDX n k c)"
    by blast+
  have eq: "fold (\<lambda>k w. w[IDX n k j := w ! IDX n k i]) [0..<Suc m] wh =
      ?w0[IDX n m j := ?w0 ! IDX n m i]"
    by simp
  from cells i ij have src: "?w0 ! IDX n m i = wh ! IDX n m i" by simp
  have "?w0[IDX n m j := ?w0 ! IDX n m i] ! IDX n k c =
      (if c = j \<and> k < Suc m then wh ! IDX n k i else wh ! IDX n k c)" if c: "c < n" for k c
    unfolding nth_update_IDX [OF len0 m(1) j c] src
    using cells c by (auto simp: less_Suc_eq)
  with len0 show ?case unfolding eq by simp
qed


lemma plan_body_where:
  assumes len: "length wh = n * n" and j: "j < n" and diag: "0 \<le> cost ! IDX n j j"
    and st: "plan_body n cost j (f, wh) = (f', wh')"
  shows "(0 \<le> cost ! IDX n 0 j \<and> wh' = wh) \<or>
     (\<exists>i. i < j \<and> 0 \<le> cost ! IDX n (i + 1) j \<and> length wh' = n * n \<and>
        (\<forall>k c. c < n \<longrightarrow>
           wh' ! IDX n k c =
           (if c = j then (if k < i then wh ! IDX n k i else if k = i then True else wh ! IDX n k j)
            else wh ! IDX n k c)))"
proof (cases "0 \<le> cost ! IDX n 0 j")
  case True
  with st show ?thesis by (simp add: plan_body_def)
next
  case False
  with diag have j1: "1 \<le> j" by (cases j) auto
  obtain v i where bb: "best_break n cost f j = (v, i)"
    by (cases "best_break n cost f j")
  from best_break_props [OF j1 diag bb] have ij: "i < j" and nn: "0 \<le> cost ! IDX n (i + 1) j"
    by simp_all
  let ?w1 = "fold (\<lambda>k w. w[IDX n k j := w ! IDX n k i]) [0..<i] wh"
  from st False bb have wh': "wh' = ?w1[IDX n i j := True]"
    by (simp add: plan_body_def Let_def)
  from ij j have i: "i < n" "i \<le> n" "i \<noteq> j" by simp_all
  from copy_fold [OF len i(1) j i(3) i(2)]
  have len1: "length ?w1 = n * n"
    and cells: "\<forall>k c. c < n \<longrightarrow>
        ?w1 ! IDX n k c = (if c = j \<and> k < i then wh ! IDX n k i else wh ! IDX n k c)"
    by blast+
  have "wh' ! IDX n k c =
      (if c = j then (if k < i then wh ! IDX n k i else if k = i then True else wh ! IDX n k j)
       else wh ! IDX n k c)" if c: "c < n" for k c
    unfolding wh' nth_update_IDX [OF len1 i(1) j c]
    using cells c by auto
  moreover have "length wh' = n * n" using len1 wh' by simp
  ultimately show ?thesis using ij nn by blast
qed

lemma filter_upt_split:
  "i \<le> n \<Longrightarrow> filter P [0..<n] = filter P [0..<i] @ filter P [i..<n]"
  using upt_add_eq_append [of 0 i "n - i"] by (metis filter_append le_add_diff_inverse le0)

lemma col_breaks_below:
  assumes "\<forall>k<n. wh ! IDX n k c \<longrightarrow> k < c" "c \<le> n"
  shows "col_breaks n wh c = filter (\<lambda>k. wh ! IDX n k c) [0..<c]"
proof -
  have "filter (\<lambda>k. wh ! IDX n k c) [c..<n] = []"
    using assms(1) by (auto simp: filter_empty_conv)
  with filter_upt_split [OF assms(2)] show ?thesis by (simp add: col_breaks_def)
qed

lemma col_breaks_cong:
  "(\<And>k. k < n \<Longrightarrow> wh' ! IDX n k c = wh ! IDX n k c) \<Longrightarrow> col_breaks n wh' c = col_breaks n wh c"
  unfolding col_breaks_def by (rule filter_cong) simp_all

lemma plan_loop_Suc:
  "plan_loop n cost (Suc m) = plan_body n cost m (plan_loop n cost m)"
  by (simp add: plan_loop_def)

lemma plan_loop_inv:
  assumes diag: "\<forall>j<n. 0 \<le> cost ! IDX n j j"
  shows "m \<le> n \<Longrightarrow> plan_inv n cost m (snd (plan_loop n cost m))"
proof (induction m)
  case 0
  have "\<not> replicate (n * n) False ! IDX n k c" if "k < n" "c < n" for k c
    using IDX_less [OF that] by simp
  then show ?case by (simp add: plan_inv_def plan_loop_def)
next
  case (Suc m)
  then have m: "m < n" "m \<le> n" by simp_all
  obtain f wh where st0: "plan_loop n cost m = (f, wh)" by (cases "plan_loop n cost m")
  obtain f' wh' where st1: "plan_body n cost m (f, wh) = (f', wh')"
    by (cases "plan_body n cost m (f, wh)")
  from Suc.IH [OF m(2)] st0 have inv: "plan_inv n cost m wh" by simp
  then have len: "length wh = n * n"
    and untouched: "\<And>c k. m \<le> c \<Longrightarrow> c < n \<Longrightarrow> k < n \<Longrightarrow> \<not> wh ! IDX n k c"
    and below: "\<And>c k. c < m \<Longrightarrow> k < n \<Longrightarrow> wh ! IDX n k c \<Longrightarrow> k < c"
    and feas: "\<And>c a b. c < m \<Longrightarrow> (a, b) \<in> set (line_groups (col_breaks n wh c @ [c]) 0)
        \<Longrightarrow> 0 \<le> cost ! IDX n a b"
    unfolding plan_inv_def by blast+
  from diag m have dm: "0 \<le> cost ! IDX n m m" by simp
  have res: "snd (plan_loop n cost (Suc m)) = wh'"
    by (simp add: plan_loop_Suc st0 st1)
  from plan_body_where [OF len m(1) dm st1]
  have "plan_inv n cost (Suc m) wh'"
  proof
    assume a: "0 \<le> cost ! IDX n 0 m \<and> wh' = wh"
    then have eq: "wh' = wh" and c0: "0 \<le> cost ! IDX n 0 m" by simp_all
    have "col_breaks n wh m = []"
      using untouched [of m] m by (auto simp: col_breaks_def filter_empty_conv)
    then have lines_m: "line_groups (col_breaks n wh m @ [m]) 0 = [(0, m)]" by simp
    have 1: "\<forall>c k. Suc m \<le> c \<and> c < n \<and> k < n \<longrightarrow> \<not> wh ! IDX n k c"
      using untouched by simp
    have 2: "\<forall>k<n. wh ! IDX n k c \<longrightarrow> k < c" if "c < Suc m" for c
    proof (cases "c = m")
      case True
      with untouched [of m] m show ?thesis by blast
    next
      case False
      with that have "c < m" by simp
      with below show ?thesis by blast
    qed
    have 3: "\<forall>(a, b) \<in> set (line_groups (col_breaks n wh c @ [c]) 0). 0 \<le> cost ! IDX n a b"
      if "c < Suc m" for c
    proof (cases "c = m")
      case True
      with lines_m c0 show ?thesis by simp
    next
      case False
      with that have "c < m" by simp
      with feas show ?thesis by blast
    qed
    from len 1 2 3 show ?thesis unfolding plan_inv_def eq by blast
  next
    assume "\<exists>i. i < m \<and> 0 \<le> cost ! IDX n (i + 1) m \<and> length wh' = n * n \<and>
        (\<forall>k c. c < n \<longrightarrow>
           wh' ! IDX n k c =
           (if c = m then (if k < i then wh ! IDX n k i else if k = i then True else wh ! IDX n k m)
            else wh ! IDX n k c))"
    then obtain i where im: "i < m" and nn: "0 \<le> cost ! IDX n (i + 1) m"
      and len': "length wh' = n * n"
      and cells: "\<And>k c. c < n \<Longrightarrow> wh' ! IDX n k c =
           (if c = m then (if k < i then wh ! IDX n k i else if k = i then True else wh ! IDX n k m)
            else wh ! IDX n k c)"
      by blast
    have other: "wh' ! IDX n k c = wh ! IDX n k c" if "c < n" "c \<noteq> m" for k c
      using cells [OF that(1)] that(2) by simp
    have colm: "wh' ! IDX n k m \<longleftrightarrow> (if k < i then wh ! IDX n k i else k = i)" if "k < n" for k
      using cells [OF m(1), of k] untouched [OF order_refl m(1) that] by simp
    have 1: "\<forall>c k. Suc m \<le> c \<and> c < n \<and> k < n \<longrightarrow> \<not> wh' ! IDX n k c"
      using other untouched by simp
    have 2: "\<forall>k<n. wh' ! IDX n k c \<longrightarrow> k < c" if "c < Suc m" for c
    proof (cases "c = m")
      case True
      show ?thesis
      proof (intro allI impI)
        fix k assume k: "k < n" and "wh' ! IDX n k c"
        with colm [OF k] True have "k \<le> i" by (auto split: if_splits)
        with im True show "k < c" by simp
      qed
    next
      case False
      with that m have "c < m" "c < n" by simp_all
      with other [OF this(2) False] below [OF this(1)] show ?thesis by simp
    qed
    have in': "i < n" "i \<le> n" using im m by simp_all
    have cbi: "col_breaks n wh i = filter (\<lambda>k. wh ! IDX n k i) [0..<i]"
      by (rule col_breaks_below) (use below [OF im] in' in auto)
    have "col_breaks n wh' m = filter (\<lambda>k. wh' ! IDX n k m) [0..<i] @
        filter (\<lambda>k. wh' ! IDX n k m) [i..<n]"
      unfolding col_breaks_def by (rule filter_upt_split [OF in'(2)])
    moreover have "filter (\<lambda>k. wh' ! IDX n k m) [0..<i] = filter (\<lambda>k. wh ! IDX n k i) [0..<i]"
      by (rule filter_cong) (use colm in' in auto)
    moreover have "filter (\<lambda>k. wh' ! IDX n k m) [i..<n] = [i]"
    proof -
      have "[i..<n] = i # [Suc i..<n]" using in'(1) by (simp add: upt_conv_Cons)
      moreover have "wh' ! IDX n i m" using colm [OF in'(1)] by simp
      moreover have "filter (\<lambda>k. wh' ! IDX n k m) [Suc i..<n] = []"
        using colm by (auto simp: filter_empty_conv)
      ultimately show ?thesis by simp
    qed
    ultimately have cbm: "col_breaks n wh' m = col_breaks n wh i @ [i]"
      using cbi by simp
    have 3: "\<forall>(a, b) \<in> set (line_groups (col_breaks n wh' c @ [c]) 0). 0 \<le> cost ! IDX n a b"
      if "c < Suc m" for c
    proof (cases "c = m")
      case True
      have "line_groups (col_breaks n wh' m @ [m]) 0 =
          line_groups (col_breaks n wh i @ [i]) 0 @ [(Suc i, m)]"
        unfolding cbm using line_groups_snoc [of "col_breaks n wh i @ [i]" m 0] by simp
      with feas [OF im] nn True show ?thesis by auto
    next
      case False
      with that m have c: "c < m" "c < n" by simp_all
      have "col_breaks n wh' c = col_breaks n wh c"
        by (rule col_breaks_cong) (use other [OF c(2) False] in simp)
      with feas [OF c(1)] show ?thesis by auto
    qed
    from len' 1 2 3 show ?thesis unfolding plan_inv_def by blast
  qed
  with res show ?case by simp
qed

lemma fold_push_filter:
  "fold (\<lambda>k w. if P k then w @ [k] else w) xs w0 = w0 @ filter P xs"
  by (induction xs arbitrary: w0) simp_all

lemma dynamic_wrap_col:
  "stri__wrap_dynamic pow wrap noccurences width_val exponent_val counts_orig counts_trim =
     (if INT_MAX < int (nat (noccurences - 1)) * int (nat (noccurences - 1))
      then Inl int_overflow
      else Inr (wrap @ col_breaks (nat (noccurences - 1))
        (snd (plan_loop (nat (noccurences - 1))
           (calc_costs pow (nat (noccurences - 1)) width_val exponent_val counts_orig counts_trim)
           (nat (noccurences - 1))))
        (nat (noccurences - 1) - 1)))"
  by (simp add: stri__wrap_dynamic_def Let_def fold_push_filter col_breaks_def)

lemma IDX_int:
  assumes "int n * int n \<le> INT_MAX" and "i < n" and "j < n"
  shows "int (IDX n i j) < INT_MAX"
proof -
  from IDX_less [OF assms(2,3)] have "int (IDX n i j) < int (n * n)"
    by (simp only: of_nat_less_iff)
  then have "int (IDX n i j) < int n * int n" by (simp only: of_nat_mult)
  with assms(1) show ?thesis by simp
qed

lemma wrap_dynamic_overflow:
  assumes "46342 \<le> noccurences"
  shows "stri__wrap_dynamic pow wrap noccurences width_val exponent_val counts_orig counts_trim =
     Inl int_overflow"
proof -
  from assms have "(46341 :: int) \<le> int (nat (noccurences - 1))" by simp
  then have "(46341 :: int) * 46341 \<le> int (nat (noccurences - 1)) * int (nat (noccurences - 1))"
    by (intro mult_mono) simp_all
  then have "INT_MAX < int (nat (noccurences - 1)) * int (nat (noccurences - 1))"
    by (simp add: INT_MAX_def)
  then show ?thesis by (simp add: dynamic_wrap_col)
qed

lemma wrap_dynamic_returns:
  assumes "noccurences \<le> 46341"
  shows "\<exists>w. stri__wrap_dynamic pow wrap noccurences width_val exponent_val counts_orig counts_trim =
     Inr w"
proof -
  from assms have "int (nat (noccurences - 1)) \<le> 46340" by simp
  then have "int (nat (noccurences - 1)) * int (nat (noccurences - 1)) \<le> 46340 * 46340"
    by (intro mult_mono) simp_all
  then have "\<not> INT_MAX < int (nat (noccurences - 1)) * int (nat (noccurences - 1))"
    by (simp add: INT_MAX_def)
  then show ?thesis by (simp add: dynamic_wrap_col)
qed

lemma calc_costs_diag:
  assumes pw: "\<forall>x\<ge>0. 0 \<le> pow x exponent_val" and j: "j < n"
  shows "0 \<le> calc_costs pow n width_val exponent_val counts_orig counts_trim ! IDX n j j"
proof -
  have "\<not> cell_cost pow width_val exponent_val counts_orig counts_trim j j < 0"
    using cell_cost_neg [where pow = pow and exponent_val = exponent_val, OF pw order_refl]
    by simp
  then show ?thesis
    using calc_costs_cell [where pow = pow and exponent_val = exponent_val, OF pw order_refl j]
    by (simp add: not_less)
qed

lemma calc_costs_nonneg_fits:
  assumes pw: "\<forall>x\<ge>0. 0 \<le> pow x exponent_val" and ij: "i < j" and j: "j < n"
    and nn: "0 \<le> calc_costs pow n width_val exponent_val counts_orig counts_trim ! IDX n i j"
  shows "line_width counts_orig counts_trim i j \<le> width_val"
proof -
  from ij have le: "i \<le> j" by simp
  from nn calc_costs_cell [where pow = pow and exponent_val = exponent_val, OF pw le j]
  have "\<not> cell_cost pow width_val exponent_val counts_orig counts_trim i j < 0"
    by (simp add: not_less)
  with cell_cost_neg [where pow = pow and exponent_val = exponent_val, OF pw le] ij
  have "fits_through width_val counts_orig counts_trim i j" by simp
  with ij show ?thesis by (rule fits_through_last)
qed

lemma dynamic_plan_inv:
  assumes pw: "\<forall>x\<ge>0. 0 \<le> pow x exponent_val"
  shows "plan_inv n (calc_costs pow n width_val exponent_val counts_orig counts_trim) n
     (snd (plan_loop n (calc_costs pow n width_val exponent_val counts_orig counts_trim) n))"
  by (rule plan_loop_inv)
     (use calc_costs_diag [where pow = pow and exponent_val = exponent_val, OF pw] in simp_all)

lemma dynamic_wrap_sorted:
  assumes pw: "\<forall>x\<ge>0. 0 \<le> pow x exponent_val"
    and r: "stri__wrap_dynamic pow [] noccurences width_val exponent_val counts_orig counts_trim =
      Inr wrap"
  shows "sorted_wrt (<) wrap \<and> (\<forall>b \<in> set wrap. int b \<le> noccurences - 3)"
proof -
  let ?n = "nat (noccurences - 1)"
  let ?cost = "calc_costs pow ?n width_val exponent_val counts_orig counts_trim"
  let ?wh = "snd (plan_loop ?n ?cost ?n)"
  from r have w: "wrap = col_breaks ?n ?wh (?n - 1)"
    by (simp add: dynamic_wrap_col split: if_splits)
  have s: "sorted_wrt (<) (col_breaks ?n ?wh (?n - 1))"
    unfolding col_breaks_def by (rule sorted_wrt_filter) simp
  have "int b \<le> noccurences - 3" if b: "b \<in> set (col_breaks ?n ?wh (?n - 1))" for b
  proof -
    from b have bn: "b < ?n" and wb: "?wh ! IDX ?n b (?n - 1)"
      by (simp_all add: col_breaks_def)
    from bn have c: "?n - 1 < ?n" by simp
    from dynamic_plan_inv [where pow = pow and exponent_val = exponent_val and n = ?n, OF pw]
    have "\<forall>k<?n. ?wh ! IDX ?n k (?n - 1) \<longrightarrow> k < ?n - 1"
      unfolding plan_inv_def using c by blast
    with bn wb have "b < ?n - 1" by blast
    then show ?thesis by simp
  qed
  with s show ?thesis unfolding w by blast
qed

lemma dynamic_lines_fit:
  assumes pw: "\<forall>x\<ge>0. 0 \<le> pow x exponent_val"
    and n: "1 \<le> nat (noccurences - 1)"
    and r: "stri__wrap_dynamic pow [] noccurences width_val exponent_val counts_orig counts_trim =
      Inr wrap"
    and ab: "(a, b) \<in> set (line_groups (wrap @ [nat (noccurences - 2)]) 0)"
  shows "a \<le> b \<and> b < nat (noccurences - 1) \<and>
     (a < b \<longrightarrow> line_width counts_orig counts_trim a b \<le> width_val)"
proof -
  let ?n = "nat (noccurences - 1)"
  let ?cost = "calc_costs pow ?n width_val exponent_val counts_orig counts_trim"
  let ?wh = "snd (plan_loop ?n ?cost ?n)"
  let ?w = "wrap"
  let ?t = "nat (noccurences - 2)"
  from r have w: "?w = col_breaks ?n ?wh (?n - 1)"
    by (simp add: dynamic_wrap_col split: if_splits)
  from n have t: "?t = ?n - 1" and c: "?n - 1 < ?n" by simp_all
  from dynamic_wrap_sorted [where pow = pow and exponent_val = exponent_val, OF pw r]
  have s: "sorted_wrt (<) ?w" and hi: "\<forall>x \<in> set ?w. int x \<le> noccurences - 3" by blast+
  from hi have hi': "\<forall>x \<in> set ?w. x < ?t" by auto
  with s have s': "sorted_wrt (<) (?w @ [?t])" by (simp add: sorted_wrt_append)
  from line_groups_props [OF s' _ ab]
  have b: "b \<in> set (?w @ [?t])" and le: "a \<le> b" by simp_all
  from b hi' n have bn: "b < ?n" by auto
  from dynamic_plan_inv [where pow = pow and exponent_val = exponent_val and n = ?n, OF pw]
  have "\<forall>(a, b) \<in> set (line_groups (col_breaks ?n ?wh (?n - 1) @ [?n - 1]) 0). 0 \<le> ?cost ! IDX ?n a b"
    unfolding plan_inv_def using c by blast
  with ab have "0 \<le> ?cost ! IDX ?n a b" unfolding w t by blast
  then have "line_width counts_orig counts_trim a b \<le> width_val" if "a < b"
    using calc_costs_nonneg_fits [where pow = pow and exponent_val = exponent_val, OF pw that bn]
    by simp
  with le bn show ?thesis by blast
qed

section \<open>Monotone line widths\<close>

lemma words_ok_nth:
  "words_ok counts_orig counts_trim \<Longrightarrow>
     length counts_trim = length counts_orig \<and>
     (\<forall>k<length counts_orig. 0 \<le> counts_trim ! k \<and> counts_trim ! k \<le> counts_orig ! k)"
  by (auto simp: words_ok_def list_all2_conv_all_nth)

lemma line_width_mono:
  assumes inv: "\<forall>k<n. 0 \<le> counts_trim ! k \<and> counts_trim ! k \<le> counts_orig ! k"
  shows "i \<le> j' \<Longrightarrow> j' \<le> j \<Longrightarrow> j < n \<Longrightarrow>
     line_width counts_orig counts_trim i j' \<le> line_width counts_orig counts_trim i j"
proof (induction j)
  case 0
  then show ?case by simp
next
  case (Suc j)
  show ?case
  proof (cases "j' = Suc j")
    case True
    then show ?thesis by simp
  next
    case False
    with Suc.prems have le: "j' \<le> j" "j < n" "i \<le> j" by simp_all
    from Suc.IH [OF Suc.prems(1) le(1,2)]
    have "line_width counts_orig counts_trim i j' \<le> line_width counts_orig counts_trim i j" .
    moreover from inv le(2) Suc.prems(3)
    have "counts_trim ! j \<le> counts_orig ! j" "0 \<le> counts_trim ! Suc j" by simp_all
    ultimately show ?thesis using le(3) by (simp add: line_width_Suc)
  qed
qed

lemma fits_through_iff:
  assumes inv: "\<forall>k<n. 0 \<le> counts_trim ! k \<and> counts_trim ! k \<le> counts_orig ! k"
    and ij: "i < j" and j: "j < n"
  shows "fits_through width_val counts_orig counts_trim i j \<longleftrightarrow>
     line_width counts_orig counts_trim i j \<le> width_val"
proof
  assume "fits_through width_val counts_orig counts_trim i j"
  with ij show "line_width counts_orig counts_trim i j \<le> width_val" by (rule fits_through_last)
next
  assume fit: "line_width counts_orig counts_trim i j \<le> width_val"
  have "line_width counts_orig counts_trim i j' \<le> width_val" if "j' \<in> set [Suc i..<Suc j]" for j'
  proof -
    from that have "i \<le> j'" "j' \<le> j" by auto
    from line_width_mono [OF inv this j] fit show ?thesis by simp
  qed
  then show "fits_through width_val counts_orig counts_trim i j"
    unfolding fits_through_def list_all_iff by blast
qed

lemma sum_list_upt_nonneg:
  "(\<And>k. k < b \<Longrightarrow> 0 \<le> f k) \<Longrightarrow> (0::int) \<le> sum_list (map f [a..<b])"
  by (rule sum_list_nonneg) auto

section \<open>The driver: scanning and the batch loop\<close>

lemma measure_body_j:
  "measure_body env s pos st = Inr st' \<Longrightarrow> s_j st' = Suc (s_j st) + fst (U8_NEXT env s (s_j st))"
  by (auto simp: measure_body_def Let_def split: prod.splits if_splits)

lemma measure_body_Inl:
  "measure_body env s pos st = Inl e \<longleftrightarrow>
     (e = MSG__NEWLINE_FOUND \<and> 0 \<le> snd (U8_NEXT env s (s_j st)) \<and>
      uset_linebreaks (snd (U8_NEXT env s (s_j st))))"
  by (auto simp: measure_body_def Let_def split: prod.splits if_splits)

lemma uset_linebreaks_nonneg: "uset_linebreaks c \<Longrightarrow> 0 \<le> c"
  by (auto simp: uset_linebreaks_def)

lemma measure_loop_newline:
  "\<exists>c \<in> set (scanned env s (s_j st)). uset_linebreaks c \<Longrightarrow>
     measure_loop env s pos st = Inl MSG__NEWLINE_FOUND"
proof (induction env s pos st rule: measure_loop.induct)
  case (1 env s pos st)
  have sc: "scanned env s (s_j st) =
     (if s_j st < length s
      then (case U8_NEXT env s (s_j st) of (trail, c) \<Rightarrow> c # scanned env s (Suc (s_j st) + trail))
      else [])"
    by (rule scanned.simps)
  have lt: "s_j st < length s"
  proof (rule ccontr)
    assume "\<not> s_j st < length s"
    with sc have "scanned env s (s_j st) = []" by simp
    with "1.prems" show False by simp
  qed
  obtain trail c where u: "U8_NEXT env s (s_j st) = (trail, c)"
    by (cases "U8_NEXT env s (s_j st)")
  from "1.prems" lt u
  have disj: "uset_linebreaks c \<or> (\<exists>c' \<in> set (scanned env s (Suc (s_j st) + trail)). uset_linebreaks c')"
    by (simp add: sc)
  show ?case
  proof (cases "measure_body env s pos st")
    case (Inl e)
    then have "e = MSG__NEWLINE_FOUND" by (simp add: measure_body_Inl)
    with Inl lt show ?thesis by (subst measure_loop.simps) simp
  next
    case (Inr st')
    then have j': "s_j st' = Suc (s_j st) + trail"
      using measure_body_j [OF Inr] u by simp
    have "\<not> uset_linebreaks c"
    proof
      assume "uset_linebreaks c"
      with u uset_linebreaks_nonneg [of c] have "measure_body env s pos st = Inl MSG__NEWLINE_FOUND"
        by (simp add: measure_body_Inl)
      with Inr show False by simp
    qed
    with disj j' have "\<exists>c' \<in> set (scanned env s (s_j st')). uset_linebreaks c'" by simp
    then have "measure_loop env s pos st' = Inl MSG__NEWLINE_FOUND"
      using "1.IH" [OF lt Inr] by simp
    with Inr lt show ?thesis by (subst measure_loop.simps) simp
  qed
qed

lemma wrap_elements_fails:
  "Some s \<in> set str \<Longrightarrow> wrap_string env width_val exponent_val s = Inl e \<Longrightarrow>
     \<exists>e'. wrap_elements env width_val exponent_val str = Inl e'"
proof (induction str)
  case Nil
  then show ?case by simp
next
  case (Cons x xs)
  show ?case
  proof (cases "x = Some s")
    case True
    with Cons.prems(2) show ?thesis by simp
  next
    case False
    with Cons.prems have "Some s \<in> set xs" by simp
    from Cons.IH [OF this Cons.prems(2)] show ?thesis
      by (auto split: option.splits sum.splits)
  qed
qed

lemma wrap_elements_nth:
  "wrap_elements env width_val exponent_val str = Inr rs \<Longrightarrow>
     length rs = length str \<and>
     (\<forall>i<length str. case str ! i of
        None \<Rightarrow> rs ! i = stri__vector_NA_strings 1
      | Some s \<Rightarrow> wrap_string env width_val exponent_val s = Inr (rs ! i))"
proof (induction str arbitrary: rs)
  case Nil
  then show ?case by simp
next
  case (Cons x xs)
  from Cons.prems obtain r rs' where rs: "rs = r # rs'"
    and r: "(case x of None \<Rightarrow> Inr (stri__vector_NA_strings 1)
               | Some s \<Rightarrow> wrap_string env width_val exponent_val s) = Inr r"
    and rest: "wrap_elements env width_val exponent_val xs = Inr rs'"
    by (auto split: sum.splits)
  from Cons.IH [OF rest] have len: "length rs' = length xs"
    and ih: "\<forall>i<length xs. case xs ! i of
        None \<Rightarrow> rs' ! i = stri__vector_NA_strings 1
      | Some s \<Rightarrow> wrap_string env width_val exponent_val s = Inr (rs' ! i)"
    by blast+
  have "case (x # xs) ! i of
        None \<Rightarrow> (r # rs') ! i = stri__vector_NA_strings 1
      | Some s \<Rightarrow> wrap_string env width_val exponent_val s = Inr ((r # rs') ! i)"
    if "i < length (x # xs)" for i
  proof (cases i)
    case 0
    with r show ?thesis by (auto split: option.splits)
  next
    case (Suc k)
    with that have "k < length xs" by simp
    with ih have "case xs ! k of
        None \<Rightarrow> rs' ! k = stri__vector_NA_strings 1
      | Some s \<Rightarrow> wrap_string env width_val exponent_val s = Inr (rs' ! k)" by blast
    then show ?thesis unfolding Suc by (cases "xs ! k") simp_all
  qed
  with len show ?case unfolding rs by simp
qed

section \<open>Every planned line fits\<close>

lemma planned_lines_fit:
  assumes "noccurences = int (length counts_orig) + 1"
    and "length counts_trim = length counts_orig"
    and "counts_orig \<noteq> []"
    and "\<forall>x\<ge>0. 0 \<le> pow x exponent_val"
    and "(if exponent_val \<le> 0
          then Inr (stri__wrap_greedy [] noccurences width_val counts_orig counts_trim)
          else stri__wrap_dynamic pow [] noccurences width_val exponent_val
                 counts_orig counts_trim) = Inr wrap"
    and "(a, b) \<in> set (line_groups (push_terminal wrap noccurences) 0)"
  shows "a \<le> b \<and> b < length counts_orig \<and>
     (line_width counts_orig counts_trim a b \<le> width_val \<or>
      (a = b \<and> width_val < counts_trim ! a))"
proof -
  from assms(1,3) have n: "1 \<le> nat (noccurences - 1)" "nat (noccurences - 1) = length counts_orig"
    by (simp_all add: Suc_le_eq)
  have "a \<le> b \<and> b < nat (noccurences - 1) \<and>
     (a < b \<longrightarrow> line_width counts_orig counts_trim a b \<le> width_val)"
  proof (cases "exponent_val \<le> 0")
    case True
    with assms(5) have "wrap = stri__wrap_greedy [] noccurences width_val counts_orig counts_trim"
      by simp
    with assms(6) show ?thesis
      using greedy_lines_fit [OF n(1), of a b width_val counts_orig counts_trim]
      by (simp add: push_terminal_def)
  next
    case False
    with assms(5)
    have r: "stri__wrap_dynamic pow [] noccurences width_val exponent_val counts_orig counts_trim =
        Inr wrap"
      by simp
    from assms(6) have "(a, b) \<in> set (line_groups (wrap @ [nat (noccurences - 2)]) 0)"
      by (simp add: push_terminal_def)
    then show ?thesis
      by (rule dynamic_lines_fit [where pow = pow and exponent_val = exponent_val,
            OF assms(4) n(1) r])
  qed
  then have le: "a \<le> b" and bn: "b < length counts_orig"
    and fit: "a < b \<longrightarrow> line_width counts_orig counts_trim a b \<le> width_val"
    using n(2) by simp_all
  have "line_width counts_orig counts_trim a b \<le> width_val \<or> (a = b \<and> width_val < counts_trim ! a)"
  proof (cases "a < b")
    case True
    with fit show ?thesis by simp
  next
    case False
    with le have "a = b" by simp
    then show ?thesis by (auto simp: line_width_def)
  qed
  with le bn show ?thesis by blast
qed

section \<open>The measurer counts code points\<close>

lemma u8_step_gt: "x < u8_step env s x"
  by (simp add: u8_step_def)

lemma aligned_refl: "aligned env s x x"
  by (subst aligned.simps) simp

lemma cp_count_refl: "cp_count env s x x = 0"
  by (subst cp_count.simps) simp

lemma aligned_le: "aligned env s x y \<Longrightarrow> x \<le> y"
proof (induction env s x y rule: aligned.induct)
  case (1 env s x y)
  show ?case
  proof (cases "x < y \<and> x < length s")
    case True
    then show ?thesis by simp
  next
    case False
    with "1.prems" show ?thesis by (subst (asm) aligned.simps) simp
  qed
qed

lemma aligned_step:
  "aligned env s x y \<Longrightarrow> x < y \<Longrightarrow>
     x < length s \<and> aligned env s (u8_step env s x) y \<and> u8_step env s x \<le> y"
proof -
  assume a: "aligned env s x y" and lt: "x < y"
  have xs: "x < length s"
  proof (rule ccontr)
    assume "\<not> x < length s"
    with a have "x = y" by (subst (asm) aligned.simps) simp
    with lt show False by simp
  qed
  with a lt have "aligned env s (u8_step env s x) y" by (subst (asm) aligned.simps) simp
  with xs aligned_le [OF this] show ?thesis by simp
qed

lemma aligned_first: "x < length s \<Longrightarrow> aligned env s x (u8_step env s x)"
  using u8_step_gt [of x env s] aligned_refl [of env s "u8_step env s x"]
  by (subst aligned.simps) simp

lemma cp_count_first: "x < length s \<Longrightarrow> cp_count env s x (u8_step env s x) = 1"
  using u8_step_gt [of x env s] cp_count_refl [of env s "u8_step env s x"]
  by (subst cp_count.simps) simp

lemma aligned_chain:
  "aligned env s x y \<Longrightarrow> aligned env s x z \<Longrightarrow> y \<le> z \<Longrightarrow> aligned env s y z"
proof (induction env s x y rule: aligned.induct)
  case (1 env s x y)
  show ?case
  proof (cases "x < y")
    case False
    with aligned_le [OF "1.prems"(1)] have "x = y" by simp
    with "1.prems"(2) show ?thesis by simp
  next
    case True
    from aligned_step [OF "1.prems"(1) True]
    have xs: "x < length s" and ay: "aligned env s (u8_step env s x) y" by simp_all
    from True "1.prems"(3) have "x < z" by simp
    from aligned_step [OF "1.prems"(2) this] have az: "aligned env s (u8_step env s x) z" by simp
    from True xs have c: "x < y \<and> x < length s" by simp
    from "1.IH" [OF c ay az "1.prems"(3)] show ?thesis .
  qed
qed

lemma aligned_trans:
  "aligned env s x y \<Longrightarrow> aligned env s y z \<Longrightarrow> aligned env s x z"
proof (induction env s x y rule: aligned.induct)
  case (1 env s x y)
  show ?case
  proof (cases "x < y")
    case False
    with aligned_le [OF "1.prems"(1)] have "x = y" by simp
    with "1.prems"(2) show ?thesis by simp
  next
    case True
    from aligned_step [OF "1.prems"(1) True]
    have xs: "x < length s" and ay: "aligned env s (u8_step env s x) y" by simp_all
    from True xs have c: "x < y \<and> x < length s" by simp
    from "1.IH" [OF c ay "1.prems"(2)] have "aligned env s (u8_step env s x) z" .
    moreover from True aligned_le [OF "1.prems"(2)] have "x < z" by simp
    ultimately show ?thesis using xs by (subst aligned.simps) simp
  qed
qed

lemma cp_count_add:
  "aligned env s x y \<Longrightarrow> y \<le> z \<Longrightarrow>
     cp_count env s x z = cp_count env s x y + cp_count env s y z"
proof (induction env s x y rule: aligned.induct)
  case (1 env s x y)
  show ?case
  proof (cases "x < y")
    case False
    with aligned_le [OF "1.prems"(1)] have "x = y" by simp
    then show ?thesis by (simp add: cp_count_refl)
  next
    case True
    from aligned_step [OF "1.prems"(1) True]
    have xs: "x < length s" and ay: "aligned env s (u8_step env s x) y" by simp_all
    from True xs have c: "x < y \<and> x < length s" by simp
    from "1.IH" [OF c ay "1.prems"(2)]
    have ih: "cp_count env s (u8_step env s x) z =
        cp_count env s (u8_step env s x) y + cp_count env s y z" .
    from True "1.prems"(2) have xz: "x < z" by simp
    have "cp_count env s x z = 1 + cp_count env s (u8_step env s x) z"
      using xz xs by (subst cp_count.simps) simp
    moreover have "cp_count env s x y = 1 + cp_count env s (u8_step env s x) y"
      using True xs by (subst cp_count.simps) simp
    ultimately show ?thesis using ih by simp
  qed
qed

lemma cp_count_nonneg: "0 \<le> cp_count env s x y"
proof (induction env s x y rule: cp_count.induct)
  case (1 env s x y)
  show ?case
  proof (cases "x < y \<and> x < length s")
    case True
    with "1.IH" show ?thesis by (subst cp_count.simps) simp
  next
    case False
    then have "cp_count env s x y = 0" by (subst cp_count.simps) auto
    then show ?thesis by simp
  qed
qed

lemma well_segmented_nth:
  assumes "well_segmented env s pos"
  shows "2 \<le> length pos" "pos ! 0 = 0" "pos ! (length pos - 1) = length s"
    "\<And>k l. k < l \<Longrightarrow> l < length pos \<Longrightarrow> pos ! k < pos ! l"
    "\<And>k. Suc k < length pos \<Longrightarrow> aligned env s (pos ! k) (pos ! Suc k)"
proof -
  from assms show len: "2 \<le> length pos" and "pos ! 0 = 0"
    by (simp_all add: well_segmented_def)
  then have ne: "pos \<noteq> []" by auto
  from assms have "last pos = length s" by (simp add: well_segmented_def)
  with ne show "pos ! (length pos - 1) = length s" by (simp add: last_conv_nth)
  from assms have "sorted_wrt (<) pos" by (simp add: well_segmented_def)
  then show "\<And>k l. k < l \<Longrightarrow> l < length pos \<Longrightarrow> pos ! k < pos ! l"
    by (simp add: sorted_wrt_nth_less)
  from assms have "list_all (\<lambda>k. aligned env s (pos ! k) (pos ! Suc k)) [0..<length pos - 1]"
    by (simp add: well_segmented_def)
  then show "\<And>k. Suc k < length pos \<Longrightarrow> aligned env s (pos ! k) (pos ! Suc k)"
    by (simp add: list_all_iff)
qed

lemma scan_init_inv:
  assumes ws: "well_segmented env s pos"
  shows "scan_inv env s pos (scan_init (int (length pos)))"
proof -
  note w = well_segmented_nth [OF ws]
  from w(1) have l1: "0 < length pos - 1" "length pos - 1 < length pos" "Suc 0 < length pos"
    by simp_all
  from w(4) [OF l1(1,2)] w(2,3) have pos_s: "0 < length s" by simp
  from w(4) [of 0 "Suc 0"] l1(3) w(2) have p1: "0 < pos ! Suc 0" by simp
  from w(1) have n: "nat (int (length pos) - 1) = length pos - 1" by simp
  show ?thesis
    unfolding scan_inv_def scan_init_def
    using w(1,2) pos_s p1 n l1 by (auto simp: aligned_refl cp_count_refl)
qed

lemma measure_body_inv:
  assumes ws: "well_segmented env s pos" and inv: "scan_inv env s pos st"
    and lt: "s_j st < length s" and u: "U8_NEXT env s (s_j st) = (trail, c)"
    and c0: "0 \<le> c" and nl: "\<not> uset_linebreaks c"
  shows "\<exists>st'. measure_body env s pos st = Inr st' \<and> scan_inv env s pos st' \<and>
     s_j st' = u8_step env s (s_j st)"
proof -
  note w = well_segmented_nth [OF ws]
  define b where "b = s_cur_block st"
  define j where "j = s_j st"
  define j' where "j' = u8_step env s j"
  define orig' where "orig' = s_cur_count_orig st + 1"
  define trim' where "trim' = (if uset_whitespaces env c then s_cur_count_trim st + 1 else 0)"
  define endp' where "endp' = (if uset_whitespaces env c then s_cur_end_pos_trim st else j')"
  have j'_eq: "j' = Suc j + trail" using u by (simp add: j'_def u8_step_def j_def)
  from inv lt have
    len: "length (s_counts_orig st) = length pos - 1" "length (s_counts_trim st) = length pos - 1"
      "length (s_end_pos_trim st) = length pos - 1"
    and bN: "Suc b < length pos" and jb: "j < pos ! Suc b"
    and al: "aligned env s (pos ! b) j"
    and orig: "s_cur_count_orig st = cp_count env s (pos ! b) j"
    and e1: "pos ! b \<le> s_cur_end_pos_trim st" and e2: "s_cur_end_pos_trim st \<le> j"
    and tr: "s_cur_count_orig st - s_cur_count_trim st = cp_count env s (pos ! b) (s_cur_end_pos_trim st)"
    and fin: "\<forall>k<b. s_counts_orig st ! k = cp_count env s (pos ! k) (pos ! Suc k) \<and>
        s_counts_trim st ! k = cp_count env s (pos ! k) (s_end_pos_trim st ! k) \<and>
        pos ! k \<le> s_end_pos_trim st ! k \<and> s_end_pos_trim st ! k \<le> pos ! Suc k"
    unfolding scan_inv_def b_def j_def by simp_all
  from lt have js: "j < length s" by (simp add: j_def)
  have jj': "j < j'" by (simp add: j'_def u8_step_gt)
  have al_next: "aligned env s (pos ! b) (pos ! Suc b)" by (rule w(5) [OF bN])
  from aligned_le [OF al] have pbj: "pos ! b \<le> j" .
  from jb have "j \<le> pos ! Suc b" by simp
  from aligned_chain [OF al al_next this] have "aligned env s j (pos ! Suc b)" .
  from aligned_step [OF this jb] have al': "aligned env s j' (pos ! Suc b)" and j'le: "j' \<le> pos ! Suc b"
    by (simp_all add: j'_def)
  have ajj': "aligned env s j j'" unfolding j'_def by (rule aligned_first [OF js])
  from aligned_trans [OF al ajj'] have alb': "aligned env s (pos ! b) j'" .
  have cnt: "cp_count env s (pos ! b) j' = cp_count env s (pos ! b) j + 1"
    using cp_count_add [OF al, of j'] jj' cp_count_first [OF js, of env] by (simp add: j'_def)
  have O: "orig' = cp_count env s (pos ! b) j'" by (simp add: orig'_def orig cnt)
  have E1: "pos ! b \<le> endp'" using e1 pbj jj' by (simp add: endp'_def)
  have E2: "endp' \<le> j'" using e2 jj' by (simp add: endp'_def)
  have T: "orig' - trim' = cp_count env s (pos ! b) endp'"
    using tr O by (simp add: orig'_def trim'_def endp'_def)
  have last_le: "pos ! Suc b \<le> length s"
  proof (cases "Suc b = length pos - 1")
    case True
    with w(3) show ?thesis by simp
  next
    case False
    with bN have "Suc b < length pos - 1" "length pos - 1 < length pos" by simp_all
    from w(4) [OF this] w(3) show ?thesis by simp
  qed
  show ?thesis
  proof (cases "j' \<ge> length s \<or> pos ! Suc b \<le> j'")
    case True
    with j'le have j'p: "j' = pos ! Suc b" using last_le by auto
    define st' where "st' = st\<lparr>s_j := j',
                         s_cur_block := Suc b,
                         s_cur_count_orig := 0,
                         s_cur_count_trim := 0,
                         s_cur_end_pos_trim := j',
                         s_counts_orig := (s_counts_orig st)[b := orig'],
                         s_counts_trim := (s_counts_trim st)[b := orig' - trim'],
                         s_end_pos_trim := (s_end_pos_trim st)[b := endp']\<rparr>"
    have body: "measure_body env s pos st = Inr st'"
      using u c0 nl True
      unfolding measure_body_def st'_def j'_eq orig'_def trim'_def endp'_def b_def j_def
      by (simp add: Let_def)
    have blen: "b < length pos - 1" using bN by simp
    have tail: "if j' < length s then Suc (Suc b) < length pos \<and> j' < pos ! Suc (Suc b)
        else j' = length s \<and> Suc (Suc b) = length pos"
    proof (cases "j' < length s")
      case True
      have "Suc b \<noteq> length pos - 1" using True j'p w(3) by auto
      with bN have sb: "Suc (Suc b) < length pos" by simp
      from w(4) [OF _ sb, of "Suc b"] j'p have "j' < pos ! Suc (Suc b)" by simp
      with True sb show ?thesis by simp
    next
      case False
      with j'p last_le have eq: "j' = length s" by simp
      have "Suc b = length pos - 1"
      proof (rule ccontr)
        assume "Suc b \<noteq> length pos - 1"
        with bN have "Suc b < length pos - 1" "length pos - 1 < length pos" by simp_all
        from w(4) [OF this] w(3) j'p eq show False by simp
      qed
      with eq bN show ?thesis by simp
    qed
    have fin': "s_counts_orig st' ! k = cp_count env s (pos ! k) (pos ! Suc k) \<and>
        s_counts_trim st' ! k = cp_count env s (pos ! k) (s_end_pos_trim st' ! k) \<and>
        pos ! k \<le> s_end_pos_trim st' ! k \<and> s_end_pos_trim st' ! k \<le> pos ! Suc k"
      if "k < Suc b" for k
    proof (cases "k = b")
      case True
      with O T E1 E2 j'p blen len show ?thesis by (simp add: st'_def)
    next
      case False
      with that have "k < b" by simp
      with fin False show ?thesis by (simp add: st'_def)
    qed
    have A': "aligned env s (pos ! Suc b) j'" and C': "cp_count env s (pos ! Suc b) j' = 0"
      and P': "pos ! Suc b \<le> j'"
      unfolding j'p by (simp_all add: aligned_refl cp_count_refl)
    have "scan_inv env s pos st'"
      unfolding scan_inv_def
      using len bN tail fin' A' C' P'
      by (simp add: st'_def)
    with body show ?thesis by (auto simp: st'_def j'_def j_def)
  next
    case False
    then have j's: "j' < length s" and j'b: "j' < pos ! Suc b" by simp_all
    define st' where "st' = st\<lparr>s_j := j',
                         s_cur_count_orig := orig',
                         s_cur_count_trim := trim',
                         s_cur_end_pos_trim := endp'\<rparr>"
    have body: "measure_body env s pos st = Inr st'"
      using u c0 nl False
      unfolding measure_body_def st'_def j'_eq orig'_def trim'_def endp'_def b_def j_def
      by (simp add: Let_def)
    have "scan_inv env s pos st'"
      unfolding scan_inv_def
      using len bN j's j'b alb' O E1 E2 T fin
      by (simp add: st'_def b_def)
    with body show ?thesis by (auto simp: st'_def j'_def j_def)
  qed
qed

lemma scanned_step:
  "j < length s \<Longrightarrow> scanned env s j = snd (U8_NEXT env s j) # scanned env s (u8_step env s j)"
  by (subst scanned.simps) (simp add: u8_step_def split: prod.splits)

lemma measure_loop_inv:
  "well_segmented env s pos \<Longrightarrow> scan_inv env s pos st \<Longrightarrow>
     list_all (\<lambda>c. 0 \<le> c \<and> \<not> uset_linebreaks c) (scanned env s (s_j st)) \<Longrightarrow>
     \<exists>st'. measure_loop env s pos st = Inr st' \<and> scan_inv env s pos st' \<and> \<not> s_j st' < length s"
proof (induction env s pos st rule: measure_loop.induct)
  case (1 env s pos st)
  show ?case
  proof (cases "s_j st < length s")
    case False
    then have "measure_loop env s pos st = Inr st" by (subst measure_loop.simps) simp
    with False "1.prems"(2) show ?thesis by simp
  next
    case True
    obtain trail c where u: "U8_NEXT env s (s_j st) = (trail, c)"
      by (cases "U8_NEXT env s (s_j st)")
    from "1.prems"(3) scanned_step [OF True, of env] u
    have c: "0 \<le> c" "\<not> uset_linebreaks c"
      and rest: "list_all (\<lambda>c. 0 \<le> c \<and> \<not> uset_linebreaks c) (scanned env s (u8_step env s (s_j st)))"
      by simp_all
    from measure_body_inv [OF "1.prems"(1) "1.prems"(2) True u c]
    obtain st1 where body: "measure_body env s pos st = Inr st1"
      and inv1: "scan_inv env s pos st1" and j1: "s_j st1 = u8_step env s (s_j st)"
      by blast
    from rest j1 have rest1: "list_all (\<lambda>c. 0 \<le> c \<and> \<not> uset_linebreaks c) (scanned env s (s_j st1))"
      by simp
    from "1.IH" [OF True body "1.prems"(1) inv1 rest1]
    obtain st' where "measure_loop env s pos st1 = Inr st'" "scan_inv env s pos st'"
      "\<not> s_j st' < length s" by blast
    moreover have "measure_loop env s pos st = measure_loop env s pos st1"
      using True body by (subst measure_loop.simps) simp
    ultimately show ?thesis by simp
  qed
qed

lemma measure_loop_final:
  assumes ws: "well_segmented env s pos"
    and valid: "list_all (\<lambda>c. 0 \<le> c) (scanned env s 0)"
    and meas: "measure_loop env s pos (scan_init (int (length pos))) = Inr st"
  shows "length (s_counts_orig st) = length pos - 1"
    and "length (s_counts_trim st) = length pos - 1"
    and "\<And>k. Suc k < length pos \<Longrightarrow>
       s_counts_orig st ! k = cp_count env s (pos ! k) (pos ! Suc k) \<and>
       s_counts_trim st ! k = cp_count env s (pos ! k) (s_end_pos_trim st ! k) \<and>
       pos ! k \<le> s_end_pos_trim st ! k \<and> s_end_pos_trim st ! k \<le> pos ! Suc k"
proof -
  let ?st0 = "scan_init (int (length pos))"
  have j0: "s_j ?st0 = 0" by (simp add: scan_init_def)
  have "\<not> (\<exists>c \<in> set (scanned env s (s_j ?st0)). uset_linebreaks c)"
  proof
    assume "\<exists>c \<in> set (scanned env s (s_j ?st0)). uset_linebreaks c"
    from measure_loop_newline [OF this, of pos] meas show False by simp
  qed
  with valid have ok: "list_all (\<lambda>c. 0 \<le> c \<and> \<not> uset_linebreaks c) (scanned env s (s_j ?st0))"
    unfolding j0 by (auto simp: list_all_iff)
  from measure_loop_inv [OF ws scan_init_inv [OF ws] ok] meas
  have inv: "scan_inv env s pos st" and fin: "\<not> s_j st < length s" by auto
  from inv fin have b: "Suc (s_cur_block st) = length pos"
    unfolding scan_inv_def by simp
  from inv show "length (s_counts_orig st) = length pos - 1"
    and "length (s_counts_trim st) = length pos - 1"
    unfolding scan_inv_def by simp_all
  show "s_counts_orig st ! k = cp_count env s (pos ! k) (pos ! Suc k) \<and>
       s_counts_trim st ! k = cp_count env s (pos ! k) (s_end_pos_trim st ! k) \<and>
       pos ! k \<le> s_end_pos_trim st ! k \<and> s_end_pos_trim st ! k \<le> pos ! Suc k"
    if "Suc k < length pos" for k
  proof -
    from that b have "k < s_cur_block st" by simp
    with inv show ?thesis unfolding scan_inv_def by blast
  qed
qed

lemma cp_count_blocks:
  assumes ws: "well_segmented env s pos"
  shows "a \<le> b \<Longrightarrow> b < length pos \<Longrightarrow>
     aligned env s (pos ! a) (pos ! b) \<and>
     cp_count env s (pos ! a) (pos ! b) =
       sum_list (map (\<lambda>k. cp_count env s (pos ! k) (pos ! Suc k)) [a..<b])"
proof (induction b)
  case 0
  then show ?case by (simp add: aligned_refl cp_count_refl)
next
  case (Suc b)
  note w = well_segmented_nth [OF ws]
  show ?case
  proof (cases "a = Suc b")
    case True
    then show ?thesis by (simp add: aligned_refl cp_count_refl)
  next
    case False
    with Suc.prems have ab: "a \<le> b" and b: "b < length pos" by simp_all
    from Suc.IH [OF ab b] have al: "aligned env s (pos ! a) (pos ! b)"
      and cnt: "cp_count env s (pos ! a) (pos ! b) =
        sum_list (map (\<lambda>k. cp_count env s (pos ! k) (pos ! Suc k)) [a..<b])"
      by simp_all
    from w(5) [OF Suc.prems(2)] have nx: "aligned env s (pos ! b) (pos ! Suc b)" .
    from aligned_le [OF nx] have le: "pos ! b \<le> pos ! Suc b" .
    from cp_count_add [OF al le] cnt ab aligned_trans [OF al nx] show ?thesis by simp
  qed
qed

lemma build_lines_groups:
  "\<forall>(a, b) \<in> set (line_groups ws a0). pos ! a \<le> end_pos_trim ! b \<Longrightarrow>
     j + length ws \<le> length ans \<Longrightarrow>
     build_lines s pos end_pos_trim ws (pos ! a0) j ans =
       Inr (take j ans @
            map (\<lambda>(a, b). mkChar (substring s (pos ! a) (end_pos_trim ! b))) (line_groups ws a0) @
            drop (j + length ws) ans)"
proof (induction ws arbitrary: a0 j ans)
  case Nil
  then show ?case by simp
next
  case (Cons w ws)
  from Cons.prems(1) have le: "pos ! a0 \<le> end_pos_trim ! w"
    and rest: "\<forall>(a, b) \<in> set (line_groups ws (Suc w)). pos ! a \<le> end_pos_trim ! b"
    by simp_all
  let ?line = "mkChar (substring s (pos ! a0) (end_pos_trim ! w))"
  from le have mk: "Rf_mkCharLenCE s (pos ! a0) (int (end_pos_trim ! w) - int (pos ! a0)) = Inr ?line"
    by (simp add: Rf_mkCharLenCE_def substring_def nat_diff_distrib')
  from Cons.prems(2) have j: "j < length ans" and len: "Suc j + length ws \<le> length (ans[j := ?line])"
    by simp_all
  from Cons.IH [OF rest len]
  have ih: "build_lines s pos end_pos_trim ws (pos ! Suc w) (Suc j) (ans[j := ?line]) =
       Inr (take (Suc j) (ans[j := ?line]) @
            map (\<lambda>(a, b). mkChar (substring s (pos ! a) (end_pos_trim ! b))) (line_groups ws (Suc w)) @
            drop (Suc j + length ws) (ans[j := ?line]))" .
  have tk: "take (Suc j) (ans[j := ?line]) = take j ans @ [?line]"
    using j by (simp add: take_Suc_conv_app_nth)
  have dr: "drop (Suc j + length ws) (ans[j := ?line]) = drop (Suc j + length ws) ans"
    by simp
  show ?case
    using mk ih unfolding tk dr by (simp add: SET_STRING_ELT_def)
qed

section \<open>The lines of a string of valid code points\<close>

text \<open>
  Let a string be segmented as the segmenter's contract says, hold only valid code
  points and be measured without error, and let the planner return. Then under either
  policy the driver returns one line per group of the plan, the bytes from the start of
  the group's first word to the trimmed end of its last word, and every line has at most
  \<open>width\<close> code points, unless it lies within a single word whose trimmed width alone
  exceeds the width.
\<close>

lemma valid_string_lines_fit:
  assumes seg: "segment env s = Inr pos"
    and ws: "well_segmented env s pos"
    and valid: "list_all (\<lambda>c. 0 \<le> c) (scanned env s 0)"
    and meas: "measure_loop env s pos (scan_init (int (length pos))) = Inr st"
    and pw: "\<forall>x\<ge>0. 0 \<le> libm_pow env x exponent_val"
    and wrap: "(if exponent_val \<le> 0
                then Inr (stri__wrap_greedy [] (int (length pos)) width_val
                            (s_counts_orig st) (s_counts_trim st))
                else stri__wrap_dynamic (libm_pow env) [] (int (length pos)) width_val exponent_val
                       (s_counts_orig st) (s_counts_trim st)) = Inr wrap"
    and groups: "groups = line_groups (push_terminal wrap (int (length pos))) 0"
  shows "wrap_string env width_val exponent_val s =
       Inr (map (\<lambda>(a, b). mkChar (substring s (pos ! a) (s_end_pos_trim st ! b))) groups) \<and>
     (\<forall>(a, b) \<in> set groups.
        a \<le> b \<and> Suc b < length pos \<and>
        pos ! a \<le> s_end_pos_trim st ! b \<and> s_end_pos_trim st ! b \<le> pos ! Suc b \<and>
        (cp_count env s (pos ! a) (s_end_pos_trim st ! b) \<le> width_val \<or>
         (a = b \<and> width_val < cp_count env s (pos ! a) (s_end_pos_trim st ! b))))"
proof -
  note w = well_segmented_nth [OF ws]
  note m = measure_loop_final [OF ws valid meas]
  let ?orig = "s_counts_orig st" and ?trim = "s_counts_trim st" and ?end = "s_end_pos_trim st"
  let ?N = "int (length pos)"
  from w(1) m(1) have h1: "?N = int (length ?orig) + 1" by simp
  from m(1,2) have h2: "length ?trim = length ?orig" by simp
  from w(1) m(1) have h3: "?orig \<noteq> []" by auto
  have lo: "length ?orig = length pos - 1" by (rule m(1))
  \<comment> \<open>every line of the plan, in words\<close>
  have word_level: "a \<le> b \<and> b < length ?orig \<and>
      (line_width ?orig ?trim a b \<le> width_val \<or> (a = b \<and> width_val < ?trim ! a))"
    if "(a, b) \<in> set groups" for a b
    using planned_lines_fit [where pow = "libm_pow env" and exponent_val = exponent_val,
        OF h1 h2 h3 pw wrap] that
    unfolding groups by blast
  \<comment> \<open>the code points of a line\<close>
  have count: "cp_count env s (pos ! a) (?end ! b) = line_width ?orig ?trim a b"
    and span: "pos ! a \<le> ?end ! b" "?end ! b \<le> pos ! Suc b"
    if ab: "a \<le> b" and b: "Suc b < length pos" for a b
  proof -
    from b have b': "b < length pos" by simp
    from cp_count_blocks [OF ws ab b'] have al: "aligned env s (pos ! a) (pos ! b)"
      and blocks: "cp_count env s (pos ! a) (pos ! b) =
        sum_list (map (\<lambda>k. cp_count env s (pos ! k) (pos ! Suc k)) [a..<b])"
      by simp_all
    from m(3) [OF b] have tb: "?trim ! b = cp_count env s (pos ! b) (?end ! b)"
      and le: "pos ! b \<le> ?end ! b" and le': "?end ! b \<le> pos ! Suc b"
      by simp_all
    have "map (\<lambda>k. cp_count env s (pos ! k) (pos ! Suc k)) [a..<b] = map (\<lambda>k. ?orig ! k) [a..<b]"
    proof (rule map_cong [OF refl])
      fix k assume "k \<in> set [a..<b]"
      with b have "Suc k < length pos" by simp
      from m(3) [OF this] show "cp_count env s (pos ! k) (pos ! Suc k) = ?orig ! k" by simp
    qed
    with blocks cp_count_add [OF al le] tb
    show "cp_count env s (pos ! a) (?end ! b) = line_width ?orig ?trim a b"
      by (simp add: line_width_def)
    from aligned_le [OF al] le show "pos ! a \<le> ?end ! b" by simp
    from le' show "?end ! b \<le> pos ! Suc b" .
  qed
  have lines: "a \<le> b \<and> Suc b < length pos \<and>
        pos ! a \<le> ?end ! b \<and> ?end ! b \<le> pos ! Suc b \<and>
        (cp_count env s (pos ! a) (?end ! b) \<le> width_val \<or>
         (a = b \<and> width_val < cp_count env s (pos ! a) (?end ! b)))"
    if g: "(a, b) \<in> set groups" for a b
  proof -
    from word_level [OF g] lo w(1) have ab: "a \<le> b" and b: "Suc b < length pos"
      and fit: "line_width ?orig ?trim a b \<le> width_val \<or> (a = b \<and> width_val < ?trim ! a)"
      by auto
    from m(3) [OF b] have tb: "?trim ! b = cp_count env s (pos ! b) (?end ! b)" by simp
    from fit count [OF ab b] tb span [OF ab b] ab b show ?thesis by auto
  qed
  \<comment> \<open>the driver builds exactly these lines\<close>
  let ?wrap' = "push_terminal wrap ?N"
  have spans: "\<forall>(a, b) \<in> set (line_groups ?wrap' 0). pos ! a \<le> ?end ! b"
    using lines unfolding groups by blast
  have len: "0 + length ?wrap' \<le> length (allocVector_STRSXP (length wrap + 1))"
    by (simp add: push_terminal_def allocVector_STRSXP_def)
  from build_lines_groups [OF spans len, of s]
  have "build_lines s pos ?end ?wrap' 0 0 (allocVector_STRSXP (length wrap + 1)) =
      Inr (map (\<lambda>(a, b). mkChar (substring s (pos ! a) (?end ! b))) groups)"
    unfolding groups w(2) by (simp add: push_terminal_def allocVector_STRSXP_def)
  moreover have "wrap_string env width_val exponent_val s =
      build_lines s pos ?end ?wrap' 0 0 (allocVector_STRSXP (length wrap + 1))"
    using seg w(1) meas wrap by (simp add: wrap_string_def Let_def)
  ultimately have "wrap_string env width_val exponent_val s =
       Inr (map (\<lambda>(a, b). mkChar (substring s (pos ! a) (?end ! b))) groups)"
    by simp
  with lines show ?thesis by blast
qed

lemma valid_string_lines_fit_example:
  "wrap_string test_icu 4 0 ''ab cdefg h'' = Inr [mkChar ''ab'', mkChar ''cdefg'', mkChar ''h''] \<and>
   cp_count test_icu ''ab cdefg h'' 0 2 = 2 \<and>
   cp_count test_icu ''ab cdefg h'' 3 8 = 5"
proof -
  let ?s = "''ab cdefg h''"
  let ?pos = "[0, 3, 9, 10 :: nat]"
  let ?st = "\<lparr>s_j = 10, s_cur_block = 3, s_cur_count_orig = 0, s_cur_count_trim = 0,
        s_cur_end_pos_trim = 10, s_counts_orig = [3, 6, 1],
        s_counts_trim = [2, 5, 1], s_end_pos_trim = [2, 8, 10],
        s_ret_i = None\<rparr>"
  have seg: "segment test_icu ?s = Inr ?pos" by code_simp
  have ws: "well_segmented test_icu ?s ?pos" by code_simp
  have valid: "list_all (\<lambda>c. 0 \<le> c) (scanned test_icu ?s 0)" by code_simp
  have meas: "measure_loop test_icu ?s ?pos (scan_init (int (length ?pos))) = Inr ?st"
    by code_simp
  have pw: "\<forall>x\<ge>0. 0 \<le> libm_pow test_icu x 0" by (simp add: test_icu_def)
  have wrap: "(if (0 :: real) \<le> 0
                 then Inr (stri__wrap_greedy [] (int (length ?pos)) 4
                             (s_counts_orig ?st) (s_counts_trim ?st))
                 else stri__wrap_dynamic (libm_pow test_icu) [] (int (length ?pos)) 4 0
                        (s_counts_orig ?st) (s_counts_trim ?st)) = Inr [0, 1]"
    by code_simp
  have groups: "[(0, 0), (1, 1), (2, 2)] = line_groups (push_terminal [0, 1] (int (length ?pos))) 0"
    by code_simp
  from valid_string_lines_fit [OF seg ws valid meas pw wrap groups]
  have "wrap_string test_icu 4 0 ?s = Inr [mkChar ''ab'', mkChar ''cdefg'', mkChar ''h'']"
    by (simp add: substring_def)
  moreover have "cp_count test_icu ?s 0 2 = 2" "cp_count test_icu ?s 3 8 = 5" by code_simp+
  ultimately show ?thesis by simp
qed

section \<open>The claims\<close>

subsection \<open>C1\<close>

text \<open>
  C1 (amended). In the Dynamic policy the width of a candidate line of the words
  \<open>i..j\<close> with \<open>i < j\<close> is the sum of the original widths of the words \<open>i..j-1\<close>
  plus the trimmed width of word \<open>j\<close>. For measured words (\<open>words_ok\<close>) the cost of
  the line is the sentinel \<open>-1\<close> if that sum exceeds the width, and
  \<open>pow (width - sum) exponent\<close> otherwise; a single-word line is never infeasible: its
  cost is 0 when the trimmed word is wider than the line, and
  \<open>pow (width - trimmed width) exponent\<close> otherwise.
\<close>

theorem dynamic_line_cost:
  assumes "\<forall>x\<ge>0. 0 \<le> pow x exponent_val"
    and "words_ok counts_orig counts_trim" and "length counts_orig = n"
    and "i \<le> j" and "j < n"
  shows "calc_costs pow n width_val exponent_val counts_orig counts_trim ! IDX n i j =
     (if i = j
      then (if width_val < counts_trim ! i then 0
            else pow (real_of_int (width_val - counts_trim ! i)) exponent_val)
      else if width_val < line_width counts_orig counts_trim i j then - 1
           else pow (real_of_int (width_val - line_width counts_orig counts_trim i j)) exponent_val)"
proof (cases "i = j")
  case True
  with calc_costs_cell [where pow = pow and exponent_val = exponent_val, OF assms(1,4,5)]
  show ?thesis by (simp add: cell_cost_def)
next
  case False
  with assms(4) have ij: "i < j" by simp
  from words_ok_nth [OF assms(2)] assms(3)
  have inv: "\<forall>k<n. 0 \<le> counts_trim ! k \<and> counts_trim ! k \<le> counts_orig ! k" by simp
  from fits_through_iff [OF inv ij assms(5)]
    calc_costs_cell [where pow = pow and exponent_val = exponent_val, OF assms(1,4,5)] False
  show ?thesis by (auto simp: cell_cost_def not_less)
qed

theorem dynamic_line_cost_witness:
  "calc_costs (\<lambda>x y. x ^ nat \<lfloor>y\<rfloor>) 2 2 2 [2, 1] [1, 1] ! IDX 2 0 1 = - 1 \<and>
   calc_costs (\<lambda>x y. x ^ nat \<lfloor>y\<rfloor>) 2 2 2 [2, 1] [1, 1] ! IDX 2 0 0 = 1 \<and>
   calc_costs (\<lambda>x y. x ^ nat \<lfloor>y\<rfloor>) 2 3 2 [2, 1] [1, 1] ! IDX 2 0 1 = 0"
  using dynamic_line_cost [of "\<lambda>x y. x ^ nat \<lfloor>y\<rfloor>" 2 "[2, 1]" "[1, 1]" 2 0 1 2]
    dynamic_line_cost [of "\<lambda>x y. x ^ nat \<lfloor>y\<rfloor>" 2 "[2, 1]" "[1, 1]" 2 0 0 2]
    dynamic_line_cost [of "\<lambda>x y. x ^ nat \<lfloor>y\<rfloor>" 2 "[2, 1]" "[1, 1]" 2 0 1 3]
  by (simp add: line_width_def words_ok_def)

text \<open>
  The claim as stated takes the trimmed widths of the words \<open>i..j-1\<close> and the original
  width of word \<open>j\<close>. For the two words \<^verbatim>\<open>"a "\<close> and \<^verbatim>\<open>"b"\<close> and the width 2 that sum
  is 2, so the line would cost \<open>0\<close>; the code finds 3 code points and marks the line
  infeasible.
\<close>

theorem dynamic_line_cost_counterexample:
  "calc_costs (\<lambda>x y. x ^ nat \<lfloor>y\<rfloor>) 2 2 2 [2, 1] [1, 1] ! IDX 2 0 1 = - 1 \<and>
   claimed_cost (\<lambda>x y. x ^ nat \<lfloor>y\<rfloor>) 2 2 [2, 1] [1, 1] 0 1 = 0"
  by code_simp

subsection \<open>C2\<close>


subsection \<open>C3\<close>

text \<open>
  C3 (amended). The Greedy policy starts with the current line width
  \<open>counts_orig ! 0\<close> and runs over the words \<open>j\<close> from 1 through \<open>wordCount - 1\<close>, the
  last word included. At word \<open>j\<close> it emits a break after word \<open>j - 1\<close> and resets the
  current width to the original width of word \<open>j\<close> exactly when the current width plus
  the trimmed width of word \<open>j\<close> exceeds the width; otherwise it adds the original width
  of word \<open>j\<close>. The current width is the sum of the original widths of the words of
  the current line. A measured word whose trimmed width alone exceeds the width gets a
  break before it and a break after it, and the planner returns without error.
\<close>

theorem greedy_breaks_characterised:
  assumes "noccurences = int (length counts_orig) + 1"
    and "length counts_trim = length counts_orig"
    and "counts_orig \<noteq> []"
    and "wrap = stri__wrap_greedy [] noccurences width_val counts_orig counts_trim"
  shows "greedy_loop [] width_val counts_orig counts_trim 1 = (counts_orig ! 0, []) \<and>
     (\<forall>j. 1 \<le> j \<and> j < length counts_orig \<longrightarrow>
        greedy_loop [] width_val counts_orig counts_trim (Suc j) =
          (case greedy_loop [] width_val counts_orig counts_trim j of
             (cur_len, w) \<Rightarrow>
               if cur_len + counts_trim ! j > width_val then (counts_orig ! j, w @ [j - 1])
               else (cur_len + counts_orig ! j, w))) \<and>
     wrap = snd (greedy_loop [] width_val counts_orig counts_trim (length counts_orig)) \<and>
     (\<forall>j. 1 \<le> j \<and> j < length counts_orig \<longrightarrow>
        (j - 1 \<in> set wrap \<longleftrightarrow>
         width_val < sum_list (map (\<lambda>k. counts_orig ! k) [line_start wrap (j - 1)..<j])
                       + counts_trim ! j)) \<and>
     (\<forall>j. j < length counts_orig \<and> words_ok counts_orig counts_trim \<and> width_val < counts_trim ! j \<longrightarrow>
        (1 \<le> j \<longrightarrow> j - 1 \<in> set wrap) \<and> (j + 1 < length counts_orig \<longrightarrow> j \<in> set wrap))"
proof -
  let ?n = "length counts_orig"
  from assms(1) have n: "nat (noccurences - 1) = ?n" by simp
  have 1: "greedy_loop [] width_val counts_orig counts_trim 1 = (counts_orig ! 0, [])"
    by (simp add: greedy_loop_def)
  have 2: "greedy_loop [] width_val counts_orig counts_trim (Suc j) =
          (case greedy_loop [] width_val counts_orig counts_trim j of
             (cur_len, w) \<Rightarrow>
               if cur_len + counts_trim ! j > width_val then (counts_orig ! j, w @ [j - 1])
               else (cur_len + counts_orig ! j, w))" if "1 \<le> j" for j
    using greedy_loop_Suc [OF that] by (simp add: greedy_body_def)
  have 3: "wrap = snd (greedy_loop [] width_val counts_orig counts_trim ?n)"
    using assms(4) n by (simp add: stri__wrap_greedy_def)
  have iff: "j - 1 \<in> set wrap \<longleftrightarrow>
      width_val < sum_list (map (\<lambda>k. counts_orig ! k) [line_start wrap (j - 1)..<j])
                    + counts_trim ! j" if "1 \<le> j" "j < ?n" for j
    using greedy_break_iff [of j noccurences width_val counts_orig counts_trim] that n
    unfolding assms(4) greedy_breaks_before_def line_width_def by simp
  have own: "(1 \<le> j \<longrightarrow> j - 1 \<in> set wrap) \<and> (j + 1 < ?n \<longrightarrow> j \<in> set wrap)"
    if j: "j < ?n" and ok: "words_ok counts_orig counts_trim" and big: "width_val < counts_trim ! j"
    for j
  proof -
    from words_ok_nth [OF ok]
    have inv: "\<And>k. k < ?n \<Longrightarrow> 0 \<le> counts_trim ! k \<and> counts_trim ! k \<le> counts_orig ! k"
      by blast
    then have o: "\<And>k. k < ?n \<Longrightarrow> 0 \<le> counts_orig ! k" by force
    have a: "j - 1 \<in> set wrap" if "1 \<le> j"
    proof -
      have "0 \<le> sum_list (map (\<lambda>k. counts_orig ! k) [line_start wrap (j - 1)..<j])"
        by (rule sum_list_upt_nonneg) (use o j in simp)
      with big iff [OF that j] show ?thesis by simp
    qed
    have b: "j \<in> set wrap" if "j + 1 < ?n"
    proof -
      have ls: "line_start wrap j \<le> j" by (rule line_start_le)
      have "0 \<le> sum_list (map (\<lambda>k. counts_orig ! k) [line_start wrap j..<j])"
        by (rule sum_list_upt_nonneg) (use o j in simp)
      with ls have "counts_orig ! j \<le> sum_list (map (\<lambda>k. counts_orig ! k) [line_start wrap j..<Suc j])"
        by simp
      moreover from inv [OF j] have "counts_trim ! j \<le> counts_orig ! j" by simp
      moreover from inv [OF that] have "0 \<le> counts_trim ! Suc j" by simp
      ultimately have "width_val < sum_list (map (\<lambda>k. counts_orig ! k) [line_start wrap j..<Suc j])
          + counts_trim ! Suc j"
        using big by linarith
      with iff [of "Suc j"] that show ?thesis by simp
    qed
    from a b show ?thesis by blast
  qed
  from 1 2 3 iff own show ?thesis by blast
qed

theorem greedy_breaks_characterised_witness:
  "0 \<in> set (stri__wrap_greedy [] 4 3 [2, 5, 1] [1, 4, 1]) \<and>
   1 \<in> set (stri__wrap_greedy [] 4 3 [2, 5, 1] [1, 4, 1]) \<and>
   greedy_loop [] 3 [2, 5, 1] [1, 4, 1] 1 = (2, [])"
proof -
  note t = greedy_breaks_characterised [of 4 "[2, 5, 1]" "[1, 4, 1]"
      "stri__wrap_greedy [] 4 3 [2, 5, 1] [1, 4, 1]" 3]
  have ok: "words_ok [2, 5, 1] [1, 4, 1]" by (simp add: words_ok_def)
  from t have init: "greedy_loop [] 3 [2, 5, 1] [1, 4, 1] 1 = (2, [])" by simp
  from t have "1 < length [2::int, 5, 1] \<and> words_ok [2, 5, 1] [1, 4, 1] \<and> (3::int) < [1, 4, 1] ! 1 \<longrightarrow>
      (1 \<le> (1::nat) \<longrightarrow> 1 - 1 \<in> set (stri__wrap_greedy [] 4 3 [2, 5, 1] [1, 4, 1])) \<and>
      (1 + 1 < length [2::int, 5, 1] \<longrightarrow> 1 \<in> set (stri__wrap_greedy [] 4 3 [2, 5, 1] [1, 4, 1]))"
    by simp
  with ok have "0 \<in> set (stri__wrap_greedy [] 4 3 [2, 5, 1] [1, 4, 1])"
      "1 \<in> set (stri__wrap_greedy [] 4 3 [2, 5, 1] [1, 4, 1])"
    by simp_all
  with init show ?thesis by simp
qed

text \<open>
  With the loop bound of the claim as stated, \<open>wordCount - 2\<close>, the two words
  \<^verbatim>\<open>"a "\<close> and \<^verbatim>\<open>"b"\<close> at width 1 would never be separated; the code breaks after the
  first word.
\<close>

theorem greedy_breaks_characterised_counterexample:
  "stri__wrap_greedy [] 3 1 [2, 1] [1, 1] = [0] \<and>
   greedy_as_claimed [] 1 [2, 1] [1, 1] = []"
  by code_simp

subsection \<open>C4\<close>

text \<open>
  C4 (the code departs from the claim). A string with an invalid byte is not returned
  unmodified: the slot is overwritten by the wrapped lines, because the \<^verbatim>\<open>continue\<close>
  after the fallback only continues the measuring loop. The string
  of the bytes 61 FF 62 20 63 (an \<^verbatim>\<open>a\<close>, the invalid byte, \<^verbatim>\<open>b\<close>, a blank, \<^verbatim>\<open>c\<close>) at
  width 1 comes back as two lines.
\<close>

theorem invalid_sequence_is_wrapped:
  "stri_wrap test_icu [Some [CHR ''a'', CHR 0xFF, CHR ''b'', CHR '' '', CHR ''c'']] 1 0 =
     Inr [[mkChar [CHR ''a'', CHR 0xFF, CHR ''b''], mkChar ''c'']] \<and>
   scanned test_icu [CHR ''a'', CHR 0xFF, CHR ''b'', CHR '' '', CHR ''c''] 0 = [97, - 1, 98, 32, 99]"
  by code_simp

subsection \<open>C5\<close>

text \<open>
  C5 (the code departs from the claim). For the words of \<^verbatim>\<open>"a b c ddd"\<close> at width 5
  and exponent 2, ending the previous line after word 1 and after word 2 both give the
  total cost 4 for the line ending at word 3. The code records the break after word 2:
  it prices the first candidate with \<open>f ! 0\<close> instead of \<open>f ! i\<close>.
\<close>

theorem tie_not_broken_to_smallest:
  "calc_costs (libm_pow test_icu) 4 5 2 [2, 2, 2, 3] [1, 1, 1, 3] ! IDX 4 0 3 < 0 \<and>
   calc_costs (libm_pow test_icu) 4 5 2 [2, 2, 2, 3] [1, 1, 1, 3] ! IDX 4 1 3 < 0 \<and>
   fst (plan_loop 4 (calc_costs (libm_pow test_icu) 4 5 2 [2, 2, 2, 3] [1, 1, 1, 3]) 3) ! 1 +
     calc_costs (libm_pow test_icu) 4 5 2 [2, 2, 2, 3] [1, 1, 1, 3] ! IDX 4 2 3 = 4 \<and>
   fst (plan_loop 4 (calc_costs (libm_pow test_icu) 4 5 2 [2, 2, 2, 3] [1, 1, 1, 3]) 3) ! 2 +
     calc_costs (libm_pow test_icu) 4 5 2 [2, 2, 2, 3] [1, 1, 1, 3] ! IDX 4 3 3 = 4 \<and>
   best_break 4 (calc_costs (libm_pow test_icu) 4 5 2 [2, 2, 2, 3] [1, 1, 1, 3])
     (fst (plan_loop 4 (calc_costs (libm_pow test_icu) 4 5 2 [2, 2, 2, 3] [1, 1, 1, 3]) 3)) 3 = (4, 2) \<and>
   stri__wrap_dynamic (libm_pow test_icu) [] 5 5 2 [2, 2, 2, 3] [1, 1, 1, 3] = Inr [2] \<and>
   stri_wrap test_icu [Some ''a b c ddd''] 5 2 = Inr [[mkChar ''a b c'', mkChar ''ddd'']]"
  by code_simp

subsection \<open>C6\<close>

text \<open>
  C6. When a string with at least two boundaries holds a code point of the set
  U+000A..U+000D, U+0085, U+2028, U+2029 (VT and FF included), measuring it throws
  \<^verbatim>\<open>MSG__NEWLINE_FOUND\<close>, and a call whose batch holds the string fails.
\<close>

theorem hard_break_raises:
  assumes "segment env s = Inr pos" and "2 \<le> length pos"
    and "\<exists>c \<in> set (scanned env s 0). uset_linebreaks c"
  shows "wrap_string env width_val exponent_val s = Inl MSG__NEWLINE_FOUND \<and>
     (0 < width_val \<and> createLineInstance env = None \<longrightarrow>
        stri_wrap env [Some s] width_val exponent_val = Inl MSG__NEWLINE_FOUND) \<and>
     (\<forall>str. Some s \<in> set str \<longrightarrow> (\<exists>e. stri_wrap env str width_val exponent_val = Inl e)) \<and>
     (\<forall>c. uset_linebreaks c \<longleftrightarrow> c \<in> {0x0A, 0x0B, 0x0C, 0x0D, 0x85, 0x2028, 0x2029})"
proof -
  have "s_j (scan_init (int (length pos))) = 0" by (simp add: scan_init_def)
  with assms(3) have "measure_loop env s pos (scan_init (int (length pos))) = Inl MSG__NEWLINE_FOUND"
    by (intro measure_loop_newline) simp
  with assms(1,2) have one: "wrap_string env width_val exponent_val s = Inl MSG__NEWLINE_FOUND"
    by (simp add: wrap_string_def Let_def)
  then have single: "0 < width_val \<and> createLineInstance env = None \<longrightarrow>
        stri_wrap env [Some s] width_val exponent_val = Inl MSG__NEWLINE_FOUND"
    by (simp add: stri_wrap_def)
  have batch: "\<exists>e. stri_wrap env str width_val exponent_val = Inl e" if "Some s \<in> set str" for str
    using wrap_elements_fails [OF that one]
    by (auto simp: stri_wrap_def split: option.splits)
  have set: "uset_linebreaks c \<longleftrightarrow> c \<in> {0x0A, 0x0B, 0x0C, 0x0D, 0x85, 0x2028, 0x2029}" for c
    unfolding uset_linebreaks_def by auto
  from one single batch set show ?thesis by blast
qed

theorem hard_break_raises_witness:
  "stri_wrap test_icu [Some [CHR ''a'', CHR '' '', CHR 0x0A, CHR ''b'']] 5 0 = Inl MSG__NEWLINE_FOUND"
proof -
  let ?s = "[CHR ''a'', CHR '' '', CHR 0x0A, CHR ''b'']"
  have h1: "segment test_icu ?s = Inr [0, 2, 4]" by code_simp
  have h2: "2 \<le> length [0 :: nat, 2, 4]" by simp
  have sc: "scanned test_icu ?s 0 = [97, 32, 10, 98]" by code_simp
  have h3: "\<exists>c \<in> set (scanned test_icu ?s 0). uset_linebreaks c"
    unfolding sc by (simp add: uset_linebreaks_def)
  have h4: "(0 :: int) < 5 \<and> createLineInstance test_icu = None" by (simp add: test_icu_def)
  from hard_break_raises [OF h1 h2 h3, of 5 0] h4 show ?thesis by blast
qed

subsection \<open>C7\<close>

text \<open>
  C7. A call with \<open>width \<le> 0\<close> raises \<^verbatim>\<open>MSG__EXPECTED_POSITIVE\<close> whatever the
  strings and the collaborators are: no string is processed and there is no result.
\<close>

theorem nonpositive_width_rejected:
  "width_val \<le> 0 \<Longrightarrow> stri_wrap env str width_val exponent_val = Inl MSG__EXPECTED_POSITIVE"
  by (simp add: stri_wrap_def)

theorem nonpositive_width_rejected_witness:
  "(0 :: int) \<le> 0 \<and> stri_wrap test_icu [Some ''a b'', None] 0 0 = Inl MSG__EXPECTED_POSITIVE"
  using nonpositive_width_rejected [of 0 test_icu "[Some ''a b'', None]" 0] by simp

subsection \<open>C8\<close>

text \<open>
  C8. When the segmenter returns fewer than two boundaries for a string, the result for
  that string is the one line equal to the string, whatever the width, the exponent and
  the other collaborators are.
\<close>

theorem no_boundaries_single_line:
  assumes "segment env s = Inr occurences_list" and "length occurences_list < 2"
  shows "wrap_string env width_val exponent_val s = Inr [mkChar s] \<and>
     (\<forall>str rs i. stri_wrap env str width_val exponent_val = Inr rs \<and> i < length str \<and> str ! i = Some s
        \<longrightarrow> rs ! i = [mkChar s])"
proof -
  from assms have one: "wrap_string env width_val exponent_val s = Inr [mkChar s]"
    by (simp add: wrap_string_def toR_def)
  have "rs ! i = [mkChar s]"
    if "stri_wrap env str width_val exponent_val = Inr rs" "i < length str" "str ! i = Some s"
    for str rs i
  proof -
    from that(1) have "wrap_elements env width_val exponent_val str = Inr rs"
      by (auto simp: stri_wrap_def split: if_splits option.splits)
    from wrap_elements_nth [OF this] that(2,3)
    have "wrap_string env width_val exponent_val s = Inr (rs ! i)" by force
    with one show ?thesis by simp
  qed
  with one show ?thesis by blast
qed

theorem no_boundaries_single_line_witness:
  "wrap_string test_icu 3 2 [] = Inr [mkChar []]"
proof -
  have h1: "segment test_icu [] = Inr [0]" by (simp add: test_icu_def blank_segment_def)
  have h2: "length [0 :: nat] < 2" by simp
  from no_boundaries_single_line [OF h1 h2, of 3 2] show ?thesis by blast
qed

subsection \<open>C9\<close>

text \<open>
  C9 (amended). For a word array of length \<open>wordCount \<ge> 1\<close>, and of at most 46340
  words for the Dynamic planner (its matrix of \<open>wordCount * wordCount\<close> cells is sized
  in 32-bit \<^verbatim>\<open>int\<close>), the planner returns a break list that is strictly increasing with
  every index in \<open>[0, wordCount - 2]\<close>, so neither planner emits a break after the final
  word. The driver appends \<open>noccurences - 2\<close>, which is \<open>wordCount - 1\<close>, the index of the
  final word: the list it builds the lines from is strictly increasing and indexes the
  word arrays within range.
\<close>

theorem planner_breaks_increasing:
  assumes "noccurences = int (length counts_orig) + 1"
    and "length counts_trim = length counts_orig"
    and "counts_orig \<noteq> []"
    and "\<forall>x\<ge>0. 0 \<le> pow x exponent_val"
    and "plan = Inr (stri__wrap_greedy [] noccurences width_val counts_orig counts_trim) \<or>
         (length counts_orig \<le> 46340 \<and>
          plan = stri__wrap_dynamic pow [] noccurences width_val exponent_val counts_orig counts_trim)"
  shows "\<exists>wrap. plan = Inr wrap \<and>
     sorted_wrt (<) wrap \<and>
     (\<forall>b \<in> set wrap. int b \<le> int (length counts_orig) - 2) \<and>
     length counts_orig - 1 \<notin> set wrap \<and>
     push_terminal wrap noccurences = wrap @ [length counts_orig - 1] \<and>
     sorted_wrt (<) (push_terminal wrap noccurences) \<and>
     (\<forall>b \<in> set (push_terminal wrap noccurences). b < length counts_orig)"
proof -
  have "\<exists>wrap. plan = Inr wrap \<and>
     (wrap = stri__wrap_greedy [] noccurences width_val counts_orig counts_trim \<or>
      stri__wrap_dynamic pow [] noccurences width_val exponent_val counts_orig counts_trim = Inr wrap)"
  proof (rule disjE [OF assms(5)])
    assume "plan = Inr (stri__wrap_greedy [] noccurences width_val counts_orig counts_trim)"
    then show ?thesis by blast
  next
    assume a: "length counts_orig \<le> 46340 \<and>
      plan = stri__wrap_dynamic pow [] noccurences width_val exponent_val counts_orig counts_trim"
    with assms(1) have "noccurences \<le> 46341" by simp
    from wrap_dynamic_returns [OF this, of pow "[]" width_val exponent_val counts_orig counts_trim]
    obtain w where
      "stri__wrap_dynamic pow [] noccurences width_val exponent_val counts_orig counts_trim = Inr w"
      by blast
    with a show ?thesis by auto
  qed
  then obtain wrap where p: "plan = Inr wrap"
    and src: "wrap = stri__wrap_greedy [] noccurences width_val counts_orig counts_trim \<or>
      stri__wrap_dynamic pow [] noccurences width_val exponent_val counts_orig counts_trim = Inr wrap"
    by blast
  from src have "sorted_wrt (<) wrap \<and> (\<forall>b \<in> set wrap. int b \<le> noccurences - 3)"
  proof
    assume "wrap = stri__wrap_greedy [] noccurences width_val counts_orig counts_trim"
    then show ?thesis
      using greedy_wrap_sorted [of noccurences width_val counts_orig counts_trim] by simp
  next
    assume "stri__wrap_dynamic pow [] noccurences width_val exponent_val counts_orig counts_trim =
      Inr wrap"
    then show ?thesis
      by (rule dynamic_wrap_sorted [where pow = pow and exponent_val = exponent_val, OF assms(4)])
  qed
  then have s: "sorted_wrt (<) wrap" and hi: "\<forall>b \<in> set wrap. int b \<le> int (length counts_orig) - 2"
    using assms(1) by auto
  from assms(3) have pos: "0 < length counts_orig" by simp
  from hi pos have notin: "length counts_orig - 1 \<notin> set wrap" by force
  have pt: "push_terminal wrap noccurences = wrap @ [length counts_orig - 1]"
    using assms(1) by (simp add: push_terminal_def nat_diff_distrib')
  from hi pos have "\<forall>b \<in> set wrap. b < length counts_orig - 1" by force
  with s pos have "sorted_wrt (<) (wrap @ [length counts_orig - 1])"
    and "\<forall>b \<in> set (wrap @ [length counts_orig - 1]). b < length counts_orig"
    by (auto simp: sorted_wrt_append)
  with p s hi notin pt show ?thesis by (intro exI [of _ wrap]) simp
qed

theorem planner_breaks_increasing_witness:
  "(\<exists>w. stri__wrap_greedy [] 5 5 [2, 2, 2, 3] [1, 1, 1, 3] = w \<and>
      sorted_wrt (<) (push_terminal w 5) \<and> length [2 :: int, 2, 2, 3] - 1 \<notin> set w) \<and>
   (\<exists>w. stri__wrap_dynamic (\<lambda>x y. x ^ nat \<lfloor>y\<rfloor>) [] 5 5 2 [2, 2, 2, 3] [1, 1, 1, 3] = Inr w \<and>
      sorted_wrt (<) (push_terminal w 5) \<and> length [2 :: int, 2, 2, 3] - 1 \<notin> set w)"
proof -
  have h1: "(5 :: int) = int (length [2 :: int, 2, 2, 3]) + 1" by simp
  have h2: "length [1 :: int, 1, 1, 3] = length [2 :: int, 2, 2, 3]" by simp
  have h3: "[2 :: int, 2, 2, 3] \<noteq> []" by simp
  have h4: "\<forall>x\<ge>0. (0 :: real) \<le> x ^ nat \<lfloor>2 :: real\<rfloor>" by simp
  have h5: "length [2 :: int, 2, 2, 3] \<le> 46340" by simp
  note g = planner_breaks_increasing [where pow = "\<lambda>x y. x ^ nat \<lfloor>y\<rfloor>" and exponent_val = 2
      and width_val = 5, OF h1 h2 h3 h4 disjI1 [OF refl]]
  note d = planner_breaks_increasing [where pow = "\<lambda>x y. x ^ nat \<lfloor>y\<rfloor>" and exponent_val = 2
      and width_val = 5, OF h1 h2 h3 h4 disjI2 [OF conjI [OF h5 refl]]]
  from g have "\<exists>w. stri__wrap_greedy [] 5 5 [2, 2, 2, 3] [1, 1, 1, 3] = w \<and>
      sorted_wrt (<) (push_terminal w 5) \<and> length [2 :: int, 2, 2, 3] - 1 \<notin> set w"
    by blast
  moreover from d
  have "\<exists>w. stri__wrap_dynamic (\<lambda>x y. x ^ nat \<lfloor>y\<rfloor>) [] 5 5 2 [2, 2, 2, 3] [1, 1, 1, 3] = Inr w \<and>
      sorted_wrt (<) (push_terminal w 5) \<and> length [2 :: int, 2, 2, 3] - 1 \<notin> set w"
    by metis
  ultimately show ?thesis by blast
qed

text \<open>
  The claim as stated has the driver append \<open>wordCount - 2\<close>. For two words with a break
  after the first, the driver's list is \<open>[0, 1]\<close>; appending \<open>wordCount - 2 = 0\<close> would
  repeat the break.
\<close>

theorem planner_breaks_increasing_counterexample:
  "push_terminal (stri__wrap_greedy [] 3 1 [2, 1] [1, 1]) 3 = [0, 1] \<and>
   stri__wrap_greedy [] 3 1 [2, 1] [1, 1] @ [length [2 :: int, 1] - 2] = [0, 0]"
  by code_simp

subsection \<open>C10\<close>

text \<open>
  C10. For \<open>howmany \<le> 0\<close> both constructors return \<^verbatim>\<open>NULL\<close>, which is not the
  zero-length character vector; for \<open>howmany > 0\<close> they return a character vector of
  exactly \<open>howmany\<close> elements, each the missing string (respectively the empty string).
\<close>

theorem mkString_results:
  "(howmany \<le> 0 \<longrightarrow>
      stri__mkStringNA howmany = R_NilValue \<and> stri__mkStringEmpty howmany = R_NilValue \<and>
      stri__mkStringNA howmany \<noteq> STRSXP [] \<and> stri__mkStringEmpty howmany \<noteq> STRSXP []) \<and>
   (0 < howmany \<longrightarrow>
      stri__mkStringNA howmany = STRSXP (replicate (nat howmany) NA_STRING) \<and>
      stri__mkStringEmpty howmany = STRSXP (replicate (nat howmany) (mkChar [])) \<and>
      (\<exists>v. stri__mkStringNA howmany = STRSXP v \<and> int (length v) = howmany) \<and>
      (\<exists>v. stri__mkStringEmpty howmany = STRSXP v \<and> int (length v) = howmany))"
  by (simp add: stri__mkStringNA_def stri__mkStringEmpty_def fold_set_all allocVector_STRSXP_def)

theorem mkString_results_witness:
  "stri__mkStringNA 0 = R_NilValue \<and> stri__mkStringEmpty (- 3) = R_NilValue \<and>
   stri__mkStringNA 2 = STRSXP [NA_STRING, NA_STRING] \<and>
   stri__mkStringEmpty 2 = STRSXP [mkChar [], mkChar []]"
  using mkString_results [of 0] mkString_results [of "- 3"] mkString_results [of 2]
  by (simp add: numeral_2_eq_2)

end
